theory Spec2Isabelle
  imports Main "HOL-Library.Word"
begin

unbundle bit_operations_syntax

section \<open>Vector registers (realv.hpp)\<close>

text \<open>
  A \<open>realv\<close> is the union of \<open>REAL r[VLEN]\<close> and \<open>CTRL_INT ci[VLEN]\<close>: \<open>VLEN\<close> lanes,
  each lane one bit pattern of \<open>8 * REAL_BYTES\<close> bits that is read either as a
  floating-point number (\<open>r\<close>) or as an unsigned integer (\<open>ci\<close>).  A register is modelled as
  the list of its lanes; the lane type is a word whose length is \<open>8 * REAL_BYTES\<close>.
  \<open>VLEN\<close> is a macro of the build and is a parameter of every operation.  C does not check
  array indices: an access outside \<open>0 .. VLEN-1\<close> and a shift by an amount outside the width
  of the shifted type are undefined; the model returns an error for them.
\<close>

datatype error = OutOfBounds int | ShiftRange int | TableBounds int int int

type_synonym 'a realv = "'a list"

definition bindE :: "error + 'a \<Rightarrow> ('a \<Rightarrow> error + 'b) \<Rightarrow> error + 'b" where
  "bindE m f = (case m of Inl e \<Rightarrow> Inl e | Inr x \<Rightarrow> f x)"

text \<open>\<open>a[i]\<close> as an rvalue and \<open>a[i] = x\<close>, for an array \<open>a\<close> and an \<open>int\<close> index.\<close>

definition rd :: "'a list \<Rightarrow> int \<Rightarrow> error + 'a" where
  "rd a i = (if 0 \<le> i \<and> i < int (length a) then Inr (a ! nat i) else Inl (OutOfBounds i))"

definition wr :: "'a list \<Rightarrow> int \<Rightarrow> 'a \<Rightarrow> error + 'a list" where
  "wr a i x = (if 0 \<le> i \<and> i < int (length a) then Inr (a[nat i := x]) else Inl (OutOfBounds i))"

text \<open>\<open>for (int i = lo; i < hi; i++) body\<close>, the body acting on the state \<open>s\<close>.\<close>

function for_loop :: "int \<Rightarrow> int \<Rightarrow> (int \<Rightarrow> 's \<Rightarrow> error + 's) \<Rightarrow> 's \<Rightarrow> error + 's" where
  "for_loop i hi body s =
     (if i < hi then bindE (body i s) (for_loop (i + 1) hi body) else Inr s)"
  by pat_completeness auto
termination
  by (relation "measure (\<lambda>(i, hi, body, s). nat (hi - i))") auto

declare for_loop.simps [simp del]

text \<open>
  The arguments of the operations below are references (\<open>realv& res\<close>, \<open>const realv& v2\<close>):
  they name objects, and two of them may name the same object.  Where an operation reads
  its sources while it writes its destination, the objects are kept in a store, from the
  address of a register to its lanes, and an argument is an address.  \<open>p.r[i]\<close> reads lane
  \<open>i\<close> of the object at \<open>p\<close> as the store is at that moment, and \<open>p.r[i] = x\<close> changes the
  object at \<open>p\<close>, for every name it has.
\<close>

type_synonym 'a store = "nat \<Rightarrow> 'a realv"

definition rd_reg :: "'a store \<Rightarrow> nat \<Rightarrow> int \<Rightarrow> error + 'a" where
  "rd_reg st p i = rd (st p) i"

definition wr_reg :: "'a store \<Rightarrow> nat \<Rightarrow> int \<Rightarrow> 'a \<Rightarrow> error + 'a store" where
  "wr_reg st p i x = bindE (wr (st p) i x) (\<lambda>r. Inr (st(p := r)))"

text \<open>
  \<open>realv_align(res, v2, v3, count)\<close>, the branch under \<open>EMU_INTRINSICS\<close>, which reads \<open>v3\<close> and
  \<open>v2\<close> lane by lane between the writes to \<open>res\<close>, without a copy of its sources:
  \<^verbatim>\<open>
    for (int i = 0; i < VLEN-count; i++)
        res.r[i] = v3.r[i + count];
    for (int i = VLEN-count; i < VLEN; i++)
        res.r[i] = v2.r[i + count - VLEN];
  \<close>
  The result is the store after the call.
\<close>

definition realv_align :: "int \<Rightarrow> 'a store \<Rightarrow> nat \<Rightarrow> nat \<Rightarrow> nat \<Rightarrow> int \<Rightarrow> error + 'a store" where
  "realv_align VLEN st res v2 v3 count =
     bindE (for_loop 0 (VLEN - count)
              (\<lambda>i st. bindE (rd_reg st v3 (i + count)) (wr_reg st res i)) st)
       (for_loop (VLEN - count) VLEN
              (\<lambda>i st. bindE (rd_reg st v2 (i + count - VLEN)) (wr_reg st res i)))"

text \<open>
  The masked \<open>realv_align(res, v2, v3, count, k1)\<close>, with \<open>unsigned int k1\<close> (32 bits):
  \<^verbatim>\<open>
    for (int i = 0; i < VLEN-count; i++)
        if ((k1 >> i) & 1)
            res.r[i] = v3.r[i + count];
    for (int i = VLEN-count; i < VLEN; i++)
        if ((k1 >> i) & 1)
            res.r[i] = v2.r[i + count - VLEN];
  \<close>
\<close>

definition mask_bit :: "32 word \<Rightarrow> int \<Rightarrow> error + bool" where
  "mask_bit k1 i =
     (if 0 \<le> i \<and> i < 32 then Inr (drop_bit (nat i) k1 AND 1 \<noteq> 0) else Inl (ShiftRange i))"

definition realv_align_masked ::
  "int \<Rightarrow> 'a store \<Rightarrow> nat \<Rightarrow> nat \<Rightarrow> nat \<Rightarrow> int \<Rightarrow> 32 word \<Rightarrow> error + 'a store" where
  "realv_align_masked VLEN st res v2 v3 count k1 =
     bindE (for_loop 0 (VLEN - count)
              (\<lambda>i st. bindE (mask_bit k1 i)
                 (\<lambda>m. if m then bindE (rd_reg st v3 (i + count)) (wr_reg st res i) else Inr st)) st)
       (for_loop (VLEN - count) VLEN
              (\<lambda>i st. bindE (mask_bit k1 i)
                 (\<lambda>m. if m then bindE (rd_reg st v2 (i + count - VLEN)) (wr_reg st res i)
                       else Inr st)))"

text \<open>
  \<open>realv_permute(res, ctrl, v3)\<close> and its masked form; \<open>ctrl.ci[i]\<close> is the unsigned reading
  of lane \<open>i\<close> of the control register, used as an index without any check.  The source is
  copied before the loop and lane \<open>i\<close> of the control register is read before lane \<open>i\<close> of
  the destination is written, so the result is a function of the lanes that the arguments
  have at the call, whichever objects they are:
  \<^verbatim>\<open>
    realv tmp = v3;
    for (int i = 0; i < VLEN; i++)
        res.r[i] = tmp.r[ctrl.ci[i]];

    realv tmp = v3;
    for (int i = 0; i < VLEN; i++) {
        if ((k1 >> i) & 1)
            res.r[i] = tmp.r[ctrl.ci[i]];
    }
  \<close>
\<close>

definition realv_permute ::
  "int \<Rightarrow> 'a::len word realv \<Rightarrow> 'a word realv \<Rightarrow> 'a word realv \<Rightarrow> error + 'a word realv" where
  "realv_permute VLEN res ctrl v3 =
     (let tmp = v3 in
      for_loop 0 VLEN
        (\<lambda>i res. bindE (rd ctrl i) (\<lambda>c. bindE (rd tmp (uint c)) (wr res i))) res)"

definition realv_permute_masked ::
  "int \<Rightarrow> 'a::len word realv \<Rightarrow> 'a word realv \<Rightarrow> 'a word realv \<Rightarrow> 32 word
     \<Rightarrow> error + 'a word realv" where
  "realv_permute_masked VLEN res ctrl v3 k1 =
     (let tmp = v3 in
      for_loop 0 VLEN
        (\<lambda>i res. bindE (mask_bit k1 i)
           (\<lambda>m. if m then bindE (rd ctrl i) (\<lambda>c. bindE (rd tmp (uint c)) (wr res i))
                 else Inr res)) res)"

text \<open>
  The macros that depend on \<open>REAL_BYTES\<close> (4: \<open>float\<close> lanes of 32 bits, 8: \<open>double\<close>
  lanes of 64 bits; any other value is refused by \<open>#error\<close>).  The lane type carries
  \<open>REAL_BYTES\<close> as its length.
\<close>

definition CTRL_IDX_MASK :: "'a::len word" where
  "CTRL_IDX_MASK = (if LENGTH('a) = 32 then 0xf else 0x7)"

definition CTRL_SEL_BIT :: "'a::len word" where
  "CTRL_SEL_BIT = (if LENGTH('a) = 32 then 0x10 else 0x8)"

text \<open>
  \<open>realv_permute2(res, ctrl, a, b)\<close>:
  \<^verbatim>\<open>
    realv tmpa = a, tmpb = b;
    for (int i = 0; i < VLEN; i++) {
        int sel = ctrl.ci[i] & CTRL_SEL_BIT; // 0 => a, 1 => b.
        int idx = ctrl.ci[i] & CTRL_IDX_MASK; // index.
        res.r[i] = sel ? tmpb.r[idx] : tmpa.r[idx];
    }
  \<close>
\<close>

definition realv_permute2 ::
  "int \<Rightarrow> 'a::len word realv \<Rightarrow> 'a word realv \<Rightarrow> 'a word realv \<Rightarrow> 'a word realv
     \<Rightarrow> error + 'a word realv" where
  "realv_permute2 VLEN res ctrl a b =
     (let tmpa = a; tmpb = b in
      for_loop 0 VLEN
        (\<lambda>i res. bindE (rd ctrl i)
           (\<lambda>c. let sel = uint (c AND CTRL_SEL_BIT);
                    idx = uint (c AND CTRL_IDX_MASK)
                in bindE (if sel \<noteq> 0 then rd tmpb idx else rd tmpa idx) (wr res i))) res)"

subsection \<open>Comparison of lanes\<close>

text \<open>
  \<open>REAL\<close> is \<open>float\<close> or \<open>double\<close>: an IEEE 754 binary format, whose bit pattern is a sign
  bit (the top bit), a biased exponent and a fraction (23 bits for \<open>float\<close>, 52 for
  \<open>double\<close>).  Exponent and fraction together are the magnitude.  A pattern whose exponent
  is all ones and whose fraction is not zero is a NaN, that is, one whose magnitude exceeds
  that of infinity.  The comparisons of C on two lanes: each of \<open><\<close>, \<open>>\<close> and \<open>==\<close> is
  false when an operand is a NaN; otherwise the operands compare as their signed
  magnitudes do, in which the two zeros (\<open>+0.0\<close> and \<open>-0.0\<close>) are the same number; and
  \<open>!=\<close> is the negation of \<open>==\<close>.
\<close>

definition fl_sign :: "'a::len word \<Rightarrow> bool" where
  "fl_sign w = bit w (LENGTH('a) - 1)"

definition fl_mag :: "'a::len word \<Rightarrow> nat" where
  "fl_mag w = unat (take_bit (LENGTH('a) - 1) w)"

definition fl_frac_bits :: "'a::len word \<Rightarrow> nat" where
  "fl_frac_bits w = (if LENGTH('a) = 32 then 23 else 52)"

definition fl_inf_mag :: "'a::len word \<Rightarrow> nat" where
  "fl_inf_mag w = 2 ^ (LENGTH('a) - 1) - 2 ^ fl_frac_bits w"

definition fl_isnan :: "'a::len word \<Rightarrow> bool" where
  "fl_isnan w = (fl_inf_mag w < fl_mag w)"

definition fl_val :: "'a::len word \<Rightarrow> int" where
  "fl_val w = (if fl_sign w then - int (fl_mag w) else int (fl_mag w))"

definition fl_lt :: "'a::len word \<Rightarrow> 'a word \<Rightarrow> bool" where
  "fl_lt x y = (\<not> fl_isnan x \<and> \<not> fl_isnan y \<and> fl_val x < fl_val y)"

definition fl_gt :: "'a::len word \<Rightarrow> 'a word \<Rightarrow> bool" where
  "fl_gt x y = (\<not> fl_isnan x \<and> \<not> fl_isnan y \<and> fl_val x > fl_val y)"

definition fl_eq :: "'a::len word \<Rightarrow> 'a word \<Rightarrow> bool" where
  "fl_eq x y = (\<not> fl_isnan x \<and> \<not> fl_isnan y \<and> fl_val x = fl_val y)"

definition fl_ne :: "'a::len word \<Rightarrow> 'a word \<Rightarrow> bool" where
  "fl_ne x y = (\<not> fl_eq x y)"



function equal_from :: "int \<Rightarrow> 'a::len word realv \<Rightarrow> 'a word realv \<Rightarrow> int \<Rightarrow> error + bool" where
  "equal_from VLEN r rhs j =
     (if j < VLEN then
        bindE (rd r j) (\<lambda>x. bindE (rd rhs j) (\<lambda>y.
          if fl_ne x y then Inr False
          else equal_from VLEN r rhs (j + 1)))
      else Inr True)"
  by pat_completeness auto
termination
  by (relation "measure (\<lambda>(VLEN, r, rhs, j). nat (VLEN - j))") auto




definition realv_equal :: "int \<Rightarrow> 'a::len word realv \<Rightarrow> 'a word realv \<Rightarrow> error + bool" where
  "realv_equal VLEN r rhs = equal_from VLEN r rhs 0"

section \<open>Expressions and visitors (foldBuilder/Visitor.hpp)\<close>

text \<open>
  Modelled from the spec: the node types of the expression IR, declared in \<open>Expr.hpp\<close>,
  which is not among the sources.  A \<open>GridPoint\<close> is a grid and, for each of its dimensions,
  an index expression: an offset from the loop variable of the dimension (\<open>x+1\<close>) or a
  constant.  An expression is a constant, a code fragment, a grid point, a unary, a binary or
  a commutative (n-ary) node, or an equation with a grid point on the left.  Nodes are shared
  by reference, and the visitors below keep no record of the nodes they have seen: a
  traversal follows every reference it meets, so what it does is a function of the
  expression unfolded into a tree, in which a shared node occurs once for each reference to
  it.
\<close>

datatype IndexExpr = Offset int | Const int

record GridPoint =
  gridName :: string
  args :: "(string \<times> IndexExpr) list"

datatype Expr =
    ConstExpr "64 word"
  | CodeExpr string
  | GridPointExpr GridPoint
  | UnaryExpr string Expr
  | BinaryExpr Expr string Expr
  | CommutativeExpr string "Expr list"
  | EqualsExpr GridPoint Expr

text \<open>
  \<open>class ExprVisitor\<close>.  Modelled from the spec: \<open>accept\<close> (in \<open>Expr.hpp\<close>) calls the \<open>visit\<close>
  overload of the node's own kind.  The leaf cases do nothing by default; a derived visitor
  that overrides them, and nothing else, is given by its three leaf methods, acting on the
  state \<open>'s\<close> of the visitor.
  \<^verbatim>\<open>
    virtual void visit(ConstExpr* ce) { }
    virtual void visit(CodeExpr* ce) { }
    virtual void visit(GridPoint* gp) { }
    virtual void visit(UnaryExpr* ue) {
        ue->getRhs()->accept(this);
    }
    virtual void visit(BinaryExpr* be) {
        be->getLhs()->accept(this);
        be->getRhs()->accept(this);
    }
    virtual void visit(EqualsExpr* be) {
        be->getLhs()->accept(this);
        be->getRhs()->accept(this);
    }
    virtual void visit(CommutativeExpr* ce) {
        ExprPtrVec& ops = ce->getOps();
        for (auto ep : ops) {
            ep->accept(this);
        }
    }
  \<close>
\<close>

record 's LeafVisits =
  visit_ConstExpr :: "64 word \<Rightarrow> 's \<Rightarrow> 's"
  visit_CodeExpr :: "string \<Rightarrow> 's \<Rightarrow> 's"
  visit_GridPoint :: "GridPoint \<Rightarrow> 's \<Rightarrow> 's"

fun ExprVisitor_accept :: "'s LeafVisits \<Rightarrow> Expr \<Rightarrow> 's \<Rightarrow> 's" where
  "ExprVisitor_accept v (ConstExpr c) s = visit_ConstExpr v c s"
| "ExprVisitor_accept v (CodeExpr c) s = visit_CodeExpr v c s"
| "ExprVisitor_accept v (GridPointExpr gp) s = visit_GridPoint v gp s"
| "ExprVisitor_accept v (UnaryExpr opr rhs) s = ExprVisitor_accept v rhs s"
| "ExprVisitor_accept v (BinaryExpr lhs opr rhs) s =
     ExprVisitor_accept v rhs (ExprVisitor_accept v lhs s)"
| "ExprVisitor_accept v (EqualsExpr lhs rhs) s =
     ExprVisitor_accept v rhs (ExprVisitor_accept v (GridPointExpr lhs) s)"
| "ExprVisitor_accept v (CommutativeExpr opr ops) s =
     fold (ExprVisitor_accept v) ops s"

text \<open>The base class itself, and a visitor that only overrides the grid-point case to
  collect the points it is called on, in the order of the calls.\<close>

definition ExprVisitor :: "'s LeafVisits" where
  "ExprVisitor = \<lparr>visit_ConstExpr = (\<lambda>c s. s), visit_CodeExpr = (\<lambda>c s. s),
                  visit_GridPoint = (\<lambda>gp s. s)\<rparr>"

definition PointCollector :: "GridPoint list LeafVisits" where
  "PointCollector = \<lparr>visit_ConstExpr = (\<lambda>c s. s), visit_CodeExpr = (\<lambda>c s. s),
                     visit_GridPoint = (\<lambda>gp s. s @ [gp])\<rparr>"

text \<open>
  \<open>class FpOpCounterVisitor : public ExprVisitor\<close>, whose state is \<open>int _numOps\<close>, a 32-bit
  integer.  It overrides three cases and inherits the leaf cases and the one of
  \<open>EqualsExpr\<close>.  \<open>ops.size() - 1\<close> is computed in \<open>size_t\<close> and the sum is converted back to
  \<open>int\<close>, which keeps the low 32 bits.  \<open>_numOps++\<close> beyond \<open>INT_MAX\<close> is undefined in C; the
  model wraps around, as the machine does.
  \<^verbatim>\<open>
    virtual void visit(UnaryExpr* ue) {
        _numOps++;
        ue->getRhs()->accept(this);
    }
    virtual void visit(BinaryExpr* be) {
        _numOps++;
        be->getLhs()->accept(this);
        be->getRhs()->accept(this);
    }
    virtual void visit(CommutativeExpr* ce) {
        ExprPtrVec& ops = ce->getOps();
        _numOps += ops.size() - 1;
        for (auto ep : ops) {
            ep->accept(this);
        }
    }
  \<close>
\<close>

fun FpOpCounterVisitor_accept :: "Expr \<Rightarrow> 32 word \<Rightarrow> 32 word" where
  "FpOpCounterVisitor_accept (ConstExpr c) numOps = numOps"
| "FpOpCounterVisitor_accept (CodeExpr c) numOps = numOps"
| "FpOpCounterVisitor_accept (GridPointExpr gp) numOps = numOps"
| "FpOpCounterVisitor_accept (UnaryExpr opr rhs) numOps =
     FpOpCounterVisitor_accept rhs (numOps + 1)"
| "FpOpCounterVisitor_accept (BinaryExpr lhs opr rhs) numOps =
     FpOpCounterVisitor_accept rhs (FpOpCounterVisitor_accept lhs (numOps + 1))"
| "FpOpCounterVisitor_accept (EqualsExpr lhs rhs) numOps =
     FpOpCounterVisitor_accept rhs (FpOpCounterVisitor_accept (GridPointExpr lhs) numOps)"
| "FpOpCounterVisitor_accept (CommutativeExpr opr ops) numOps =
     fold FpOpCounterVisitor_accept ops (numOps + (word_of_nat (length ops) - 1))"

text \<open>\<open>FpOpCounterVisitor() : _numOps(0)\<close>, one traversal, then \<open>getNumOps()\<close>.\<close>

definition getNumOps :: "Expr \<Rightarrow> int" where
  "getNumOps e = sint (FpOpCounterVisitor_accept e 0)"

text \<open>
  The count as the specification words it: 1 for each occurrence of a unary or of a binary
  node, \<open>k - 1\<close> for each occurrence of a commutative node with \<open>k\<close> operands, 0 for each leaf.
\<close>

fun spec_op_count :: "Expr \<Rightarrow> int" where
  "spec_op_count (ConstExpr c) = 0"
| "spec_op_count (CodeExpr c) = 0"
| "spec_op_count (GridPointExpr gp) = 0"
| "spec_op_count (UnaryExpr opr rhs) = 1 + spec_op_count rhs"
| "spec_op_count (BinaryExpr lhs opr rhs) = 1 + spec_op_count lhs + spec_op_count rhs"
| "spec_op_count (EqualsExpr lhs rhs) = spec_op_count rhs"
| "spec_op_count (CommutativeExpr opr ops) =
     (int (length ops) - 1) + sum_list (map spec_op_count ops)"

text \<open>Expressions made of unary and binary nodes over leaves, and the number of their
  nodes that are not leaves.\<close>

fun unary_binary_only :: "Expr \<Rightarrow> bool" where
  "unary_binary_only (ConstExpr c) = True"
| "unary_binary_only (CodeExpr c) = True"
| "unary_binary_only (GridPointExpr gp) = True"
| "unary_binary_only (UnaryExpr opr rhs) = unary_binary_only rhs"
| "unary_binary_only (BinaryExpr lhs opr rhs) = (unary_binary_only lhs \<and> unary_binary_only rhs)"
| "unary_binary_only (EqualsExpr lhs rhs) = False"
| "unary_binary_only (CommutativeExpr opr ops) = False"

fun num_nodes :: "Expr \<Rightarrow> nat" where
  "num_nodes (ConstExpr c) = 0"
| "num_nodes (CodeExpr c) = 0"
| "num_nodes (GridPointExpr gp) = 0"
| "num_nodes (UnaryExpr opr rhs) = 1 + num_nodes rhs"
| "num_nodes (BinaryExpr lhs opr rhs) = 1 + num_nodes lhs + num_nodes rhs"
| "num_nodes (EqualsExpr lhs rhs) = 1 + num_nodes rhs"
| "num_nodes (CommutativeExpr opr ops) = 1 + sum_list (map num_nodes ops)"

text \<open>The grid points of an expression, from left to right.\<close>

fun points_of :: "Expr \<Rightarrow> GridPoint list" where
  "points_of (ConstExpr c) = []"
| "points_of (CodeExpr c) = []"
| "points_of (GridPointExpr gp) = [gp]"
| "points_of (UnaryExpr opr rhs) = points_of rhs"
| "points_of (BinaryExpr lhs opr rhs) = points_of lhs @ points_of rhs"
| "points_of (EqualsExpr lhs rhs) = lhs # points_of rhs"
| "points_of (CommutativeExpr opr ops) = concat (map points_of ops)"

section \<open>Base points and the pointer cache (compiler/lib/Cpp.hpp)\<close>

text \<open>
  Modelled from the spec: the parts of \<open>Dimensions\<close> and of \<open>GridPoint\<close> that \<open>makeBasePoint\<close>
  uses, which are declared outside the sources.  \<open>Dimensions\<close> names the inner (unit-stride)
  dimension and gives the fold shape, a multiplicity for each folded domain dimension.
  \<open>cloneGridPoint\<close> returns a copy of the point.  \<open>setArgConst\<close> takes an \<open>IntScalar\<close>, a
  dimension name with a value, and makes that constant the index of the point in that
  dimension; the other indices stay, and a point without the dimension is unchanged.
\<close>

record Dimensions =
  innerDim :: string
  fold_shape :: "(string \<times> int) list"

type_synonym IntScalar = "string \<times> int"

definition cloneGridPoint :: "GridPoint \<Rightarrow> GridPoint" where
  "cloneGridPoint gp = gp"

definition setArgConst :: "GridPoint \<Rightarrow> IntScalar \<Rightarrow> GridPoint" where
  "setArgConst gp val =
     gp\<lparr>args := map (\<lambda>(dname, ie). if dname = fst val then (dname, Const (snd val)) else (dname, ie))
                    (args gp)\<rparr>"

text \<open>
  \<open>CppVecPrintHelper::makeBasePoint\<close>:
  \<^verbatim>\<open>
    virtual GridPointPtr makeBasePoint(const GridPoint& gp) {
        GridPointPtr bgp = gp.cloneGridPoint();
        IntScalar idi(getDims()._innerDim, 0); // set inner-dim index to 0.
        bgp->setArgConst(idi);
        return bgp;
    }
  \<close>
\<close>

definition makeBasePoint :: "Dimensions \<Rightarrow> GridPoint \<Rightarrow> GridPoint" where
  "makeBasePoint dims gp =
     (let bgp = cloneGridPoint gp;
          idi = (innerDim dims, 0)
      in setArgConst bgp idi)"

text \<open>
  Modelled from the spec: the base-point mapping of the fold planner, which is not among the
  sources: the point with the offset of every fold dimension forced to its
  floor-of-fold-shape-aligned value, the greatest multiple of the multiplicity of the
  dimension that does not exceed the offset.
\<close>

definition planner_base_point :: "Dimensions \<Rightarrow> GridPoint \<Rightarrow> GridPoint" where
  "planner_base_point dims gp =
     gp\<lparr>args := map (\<lambda>(dname, ie).
                      case (ie, map_of (fold_shape dims) dname) of
                        (Offset ofs, Some mult) \<Rightarrow> (dname, Offset (ofs div mult * mult))
                      | _ \<Rightarrow> (dname, ie))
                    (args gp)\<rparr>"

text \<open>
  The pointer cache of \<open>CppVecPrintHelper\<close> and its two accessors.  \<open>lookupPointPtr\<close> returns
  a pointer to the name in the map, or null.
  \<^verbatim>\<open>
    map<GridPoint, string> _vecPtrs; // pointers to grid vecs. value: ptr-var name.
    map<string, int> _ptrOfsLo; // lowest read offset from _vecPtrs in inner dim.
    map<string, int> _ptrOfsHi; // highest read offset from _vecPtrs in inner dim.

    virtual void savePointPtr(const GridPoint& gp, string var) {
        _vecPtrs[gp] = var;
    }
    virtual string* lookupPointPtr(const GridPoint& gp) {
        if (_vecPtrs.count(gp))
            return &_vecPtrs.at(gp);
        return 0;
    }
  \<close>
  The counter \<open>varNum\<close> belongs to the generation of names for temporaries, which is
  modelled from the spec below.
\<close>

record CppVecPrintHelper =
  vecPtrs :: "GridPoint \<rightharpoonup> string"
  ptrOfsLo :: "string \<rightharpoonup> int"
  ptrOfsHi :: "string \<rightharpoonup> int"
  varNum :: nat

definition savePointPtr :: "CppVecPrintHelper \<Rightarrow> GridPoint \<Rightarrow> string \<Rightarrow> CppVecPrintHelper" where
  "savePointPtr h gp var = h\<lparr>vecPtrs := (vecPtrs h)(gp \<mapsto> var)\<rparr>"

definition lookupPointPtr :: "CppVecPrintHelper \<Rightarrow> GridPoint \<Rightarrow> string option" where
  "lookupPointPtr h gp = (if gp \<in> dom (vecPtrs h) then Some (the (vecPtrs h gp)) else None)"

text \<open>
  Modelled from the spec: the request for the aligned pointer of a point, whose code
  (\<open>Cpp.cpp\<close>) is not among the sources.  The pointer variable of the base point of \<open>gp\<close> is
  reused from the cache, or a variable with a new name is made and recorded under the base
  point; then the range of inner-dimension offsets recorded for that variable is extended
  by the offset of \<open>gp\<close>.  \<open>makeVarName\<close> gives the name of the temporary of a given number.
  At the start of the generation pass of an equation the cache is empty.
\<close>

definition innerOffset :: "Dimensions \<Rightarrow> GridPoint \<Rightarrow> int option" where
  "innerOffset dims gp =
     (case map_of (args gp) (innerDim dims) of Some (Offset ofs) \<Rightarrow> Some ofs | _ \<Rightarrow> None)"

definition extendOfs :: "CppVecPrintHelper \<Rightarrow> string \<Rightarrow> int \<Rightarrow> CppVecPrintHelper" where
  "extendOfs h p ofs =
     h\<lparr>ptrOfsLo := (ptrOfsLo h)(p \<mapsto> (case ptrOfsLo h p of None \<Rightarrow> ofs | Some lo \<Rightarrow> min lo ofs)),
       ptrOfsHi := (ptrOfsHi h)(p \<mapsto> (case ptrOfsHi h p of None \<Rightarrow> ofs | Some hi \<Rightarrow> max hi ofs))\<rparr>"

definition requestPointPtr ::
  "(nat \<Rightarrow> string) \<Rightarrow> Dimensions \<Rightarrow> CppVecPrintHelper \<Rightarrow> GridPoint \<Rightarrow> CppVecPrintHelper \<times> string" where
  "requestPointPtr makeVarName dims h gp =
     (let bgp = makeBasePoint dims gp;
          (h1, p) = (case lookupPointPtr h bgp of
                       Some p \<Rightarrow> (h, p)
                     | None \<Rightarrow> (let p = makeVarName (varNum h)
                               in (savePointPtr (h\<lparr>varNum := Suc (varNum h)\<rparr>) bgp p, p)))
      in (case innerOffset dims gp of None \<Rightarrow> h1 | Some ofs \<Rightarrow> extendOfs h1 p ofs, p))"

definition emptyCache :: CppVecPrintHelper where
  "emptyCache = \<lparr>vecPtrs = Map.empty, ptrOfsLo = Map.empty, ptrOfsHi = Map.empty, varNum = 0\<rparr>"

definition requestAll ::
  "(nat \<Rightarrow> string) \<Rightarrow> Dimensions \<Rightarrow> CppVecPrintHelper \<Rightarrow> GridPoint list \<Rightarrow> CppVecPrintHelper" where
  "requestAll makeVarName dims h gps = foldl (\<lambda>h gp. fst (requestPointPtr makeVarName dims h gp)) h gps"

text \<open>The inner-dimension offsets requested by those accesses of a list whose base point
  is \<open>bgp\<close>.\<close>

definition offsetsOf :: "Dimensions \<Rightarrow> GridPoint \<Rightarrow> GridPoint list \<Rightarrow> int list" where
  "offsetsOf dims bgp gps =
     List.map_filter (innerOffset dims) (filter (\<lambda>gp. makeBasePoint dims gp = bgp) gps)"

text \<open>
  What holds of the cache after the accesses \<open>gps\<close>: the names in it are those of the
  temporaries made so far, one for each base point; the base points in it are those of the
  accesses; the range recorded for the variable of a base point is the least and the
  greatest of the offsets requested with that base point; and nothing is recorded for the
  temporaries yet to be made.
\<close>

definition rangeOf :: "int list \<Rightarrow> (int list \<Rightarrow> int) \<Rightarrow> int option" where
  "rangeOf ofs sel = (if ofs = [] then None else Some (sel ofs))"

definition cacheInv ::
  "(nat \<Rightarrow> string) \<Rightarrow> Dimensions \<Rightarrow> CppVecPrintHelper \<Rightarrow> GridPoint list \<Rightarrow> bool" where
  "cacheInv makeVarName dims h gps \<longleftrightarrow>
     (\<forall>b p. vecPtrs h b = Some p \<longrightarrow> (\<exists>k<varNum h. p = makeVarName k)) \<and>
     (\<forall>b b' p. vecPtrs h b = Some p \<and> vecPtrs h b' = Some p \<longrightarrow> b = b') \<and>
     (\<forall>b. vecPtrs h b \<noteq> None \<longleftrightarrow> (\<exists>gp\<in>set gps. makeBasePoint dims gp = b)) \<and>
     (\<forall>b p. vecPtrs h b = Some p \<longrightarrow>
        ptrOfsLo h p = rangeOf (offsetsOf dims b gps) (\<lambda>ofs. Min (set ofs)) \<and>
        ptrOfsHi h p = rangeOf (offsetsOf dims b gps) (\<lambda>ofs. Max (set ofs))) \<and>
     (\<forall>k\<ge>varNum h. ptrOfsLo h (makeVarName k) = None \<and> ptrOfsHi h (makeVarName k) = None)"

section \<open>Finite-difference coefficients (coefficients/fd\_coeff.cpp)\<close>

text \<open>
  The arithmetic of \<open>float\<close> is a parameter: subtraction, multiplication, division and the
  conversion of an \<open>int\<close>.  Which elements of the arrays are accessed does not depend on it.
\<close>

record 'r FloatOps =
  f_sub :: "'r \<Rightarrow> 'r \<Rightarrow> 'r"
  f_mul :: "'r \<Rightarrow> 'r \<Rightarrow> 'r"
  f_div :: "'r \<Rightarrow> 'r \<Rightarrow> 'r"
  f_of_int :: "int \<Rightarrow> 'r"

text \<open>
  \<open>float d[order+1][num_points][num_points]\<close>: an access \<open>d[m][n][v]\<close> is inside the table when
  each index is inside its dimension.
\<close>

type_synonym 'r table = "int \<times> int \<times> int \<Rightarrow> 'r"

definition d_rd :: "int \<Rightarrow> int \<Rightarrow> 'r table \<Rightarrow> int \<Rightarrow> int \<Rightarrow> int \<Rightarrow> error + 'r" where
  "d_rd order num_points d m n v =
     (if 0 \<le> m \<and> m < order + 1 \<and> 0 \<le> n \<and> n < num_points \<and> 0 \<le> v \<and> v < num_points
      then Inr (d (m, n, v)) else Inl (TableBounds m n v))"

definition d_wr :: "int \<Rightarrow> int \<Rightarrow> 'r table \<Rightarrow> int \<Rightarrow> int \<Rightarrow> int \<Rightarrow> 'r \<Rightarrow> error + 'r table" where
  "d_wr order num_points d m n v x =
     (if 0 \<le> m \<and> m < order + 1 \<and> 0 \<le> n \<and> n < num_points \<and> 0 \<le> v \<and> v < num_points
      then Inr (d((m, n, v) := x)) else Inl (TableBounds m n v))"

text \<open>
  The innermost loop of the first part, for given \<open>n\<close>, \<open>v\<close> and \<open>c3\<close>:
  \<^verbatim>\<open>
    for(int m=0; m<=MIN(n, order); ++m){
        d[m][n][v] = (points[n]-x_0)*d[m][n-1][v] - m*d[m-1][n-1][v];
        d[m][n][v] *= 1.f/c3;
    }
  \<close>
\<close>

definition fd_coeff_loop_m1 ::
  "'r FloatOps \<Rightarrow> 'r \<Rightarrow> int \<Rightarrow> 'r list \<Rightarrow> int \<Rightarrow> int \<Rightarrow> int \<Rightarrow> 'r \<Rightarrow> 'r table \<Rightarrow> error + 'r table" where
  "fd_coeff_loop_m1 ops x_0 order points num_points n v c3 d =
     for_loop 0 (min n order + 1)
       (\<lambda>m d.
          bindE (rd points n) (\<lambda>pn.
          bindE (d_rd order num_points d m (n - 1) v) (\<lambda>a.
          bindE (d_rd order num_points d (m - 1) (n - 1) v) (\<lambda>b.
          bindE (d_wr order num_points d m n v
                   (f_sub ops (f_mul ops (f_sub ops pn x_0) a) (f_mul ops (f_of_int ops m) b))) (\<lambda>d.
          bindE (d_rd order num_points d m n v) (\<lambda>x.
          d_wr order num_points d m n v
            (f_mul ops x (f_div ops (f_of_int ops 1) c3)))))))) d"

text \<open>
  The loop that follows the loop on \<open>v\<close>:
  \<^verbatim>\<open>
    for(int m=0; m<= MIN(n, order); m++){
        d[m][n][n] = m*d[m-1][n-1][n-1] - (points[n-1]-x_0)*d[m][n-1][n-1];
        d[m][n][n] *= c1/c2;
    }
  \<close>
\<close>

definition fd_coeff_loop_m2 ::
  "'r FloatOps \<Rightarrow> 'r \<Rightarrow> int \<Rightarrow> 'r list \<Rightarrow> int \<Rightarrow> int \<Rightarrow> 'r \<Rightarrow> 'r \<Rightarrow> 'r table \<Rightarrow> error + 'r table" where
  "fd_coeff_loop_m2 ops x_0 order points num_points n c1 c2 d =
     for_loop 0 (min n order + 1)
       (\<lambda>m d.
          bindE (d_rd order num_points d (m - 1) (n - 1) (n - 1)) (\<lambda>b.
          bindE (rd points (n - 1)) (\<lambda>pn1.
          bindE (d_rd order num_points d m (n - 1) (n - 1)) (\<lambda>a.
          bindE (d_wr order num_points d m n n
                   (f_sub ops (f_mul ops (f_of_int ops m) b) (f_mul ops (f_sub ops pn1 x_0) a))) (\<lambda>d.
          bindE (d_rd order num_points d m n n) (\<lambda>x.
          d_wr order num_points d m n n (f_mul ops x (f_div ops c1 c2)))))))) d"

text \<open>
  The loop on \<open>v\<close>, on the table and \<open>c2\<close>:
  \<^verbatim>\<open>
    for(int v=0; v<=n-1; v++){
        c3 = points[n] - points[v];
        c2 = c2*c3;
        for(int m=0; m<=MIN(n, order); ++m){ ... }
    }
  \<close>
\<close>

definition fd_coeff_loop_v ::
  "'r FloatOps \<Rightarrow> 'r \<Rightarrow> int \<Rightarrow> 'r list \<Rightarrow> int \<Rightarrow> int \<Rightarrow> 'r table \<times> 'r \<Rightarrow> error + 'r table \<times> 'r" where
  "fd_coeff_loop_v ops x_0 order points num_points n =
     for_loop 0 n
       (\<lambda>v (d, c2).
          bindE (rd points n) (\<lambda>pn.
          bindE (rd points v) (\<lambda>pv.
          let c3 = f_sub ops pn pv;
              c2 = f_mul ops c2 c3
          in bindE (fd_coeff_loop_m1 ops x_0 order points num_points n v c3 d)
               (\<lambda>d. Inr (d, c2)))))"

text \<open>
  \<open>fd_coeff(coeff, eval_point, order, points, num_points)\<close>; the result is the content of
  \<open>coeff\<close>:
  \<^verbatim>\<open>
    float c1, c2, c3;
    float x_0=eval_point;
    float d[order+1][num_points][num_points];
    memset(d, 0, sizeof(d));
    d[0][0][0]=1;
    c1 = 1.f;
    for(int n=1; n<=num_points-1;n++){
        c2=1.f;
        for(int v=0; v<=n-1; v++){ ... }
        for(int m=0; m<= MIN(n, order); m++){ ... }
        c1=c2;
    }
    for(int i=0; i<num_points; i++){
        coeff[i] = d[order][num_points-1][i];
    }
  \<close>
\<close>

definition fd_coeff ::
  "'r FloatOps \<Rightarrow> 'r list \<Rightarrow> 'r \<Rightarrow> int \<Rightarrow> 'r list \<Rightarrow> int \<Rightarrow> error + 'r list" where
  "fd_coeff ops coeff eval_point order points num_points =
     (let x_0 = eval_point;
          d = (\<lambda>i. f_of_int ops 0)
      in bindE (d_wr order num_points d 0 0 0 (f_of_int ops 1)) (\<lambda>d.
         let c1 = f_of_int ops 1
         in bindE (for_loop 1 num_points
                     (\<lambda>n (d, c1).
                        let c2 = f_of_int ops 1
                        in bindE (fd_coeff_loop_v ops x_0 order points num_points n (d, c2))
                             (\<lambda>(d, c2).
                                bindE (fd_coeff_loop_m2 ops x_0 order points num_points n c1 c2 d)
                                  (\<lambda>d. Inr (d, c2))))
                     (d, c1))
              (\<lambda>(d, c1).
                 for_loop 0 num_points
                   (\<lambda>i coeff. bindE (d_rd order num_points d order (num_points - 1) i) (wr coeff i))
                   coeff)))"

section \<open>The loops of the vector operations\<close>

text \<open>
  Two rules for \<open>for_loop\<close>: with an invariant that every iteration keeps without
  failing, the loop returns and the invariant holds at the end; and when the loop has
  returned, an invariant kept by the iterations that returned holds at the end.
\<close>

lemma for_loop_total:
  assumes "I lo s"
    and "\<And>i s. lo \<le> i \<Longrightarrow> i < hi \<Longrightarrow> I i s \<Longrightarrow> \<exists>s'. body i s = Inr s' \<and> I (i + 1) s'"
  shows "\<exists>s'. for_loop lo hi body s = Inr s' \<and> I (max lo hi) s'"
  using assms
proof (induction lo hi body s rule: for_loop.induct)
  case (1 i hi body s)
  show ?case
  proof (cases "i < hi")
    case True
    from "1.prems"(2) [OF _ True "1.prems"(1)] obtain s1
      where s1: "body i s = Inr s1" "I (i + 1) s1" by auto
    have "\<exists>s'. for_loop (i + 1) hi body s1 = Inr s' \<and> I (max (i + 1) hi) s'"
      using "1.IH" [OF True s1(2)] "1.prems"(2) by force
    moreover have "max (i + 1) hi = max i hi" using True by simp
    ultimately show ?thesis
      using True s1 by (subst for_loop.simps) (simp add: bindE_def)
  next
    case False
    then show ?thesis using "1.prems"(1) by (subst for_loop.simps) (simp add: max_def)
  qed
qed

lemma for_loop_partial:
  assumes "for_loop lo hi body s = Inr t" "I lo s"
    and "\<And>i s s'. lo \<le> i \<Longrightarrow> i < hi \<Longrightarrow> I i s \<Longrightarrow> body i s = Inr s' \<Longrightarrow> I (i + 1) s'"
  shows "I (max lo hi) t"
  using assms
proof (induction lo hi body s rule: for_loop.induct)
  case (1 i hi body s)
  show ?case
  proof (cases "i < hi")
    case True
    from "1.prems"(1) True obtain s1
      where s1: "body i s = Inr s1" "for_loop (i + 1) hi body s1 = Inr t"
      by (subst (asm) for_loop.simps) (auto simp: bindE_def split: sum.splits)
    have "I (i + 1) s1" using "1.prems"(3) [OF _ True "1.prems"(2) s1(1)] by simp
    then have "I (max (i + 1) hi) t"
      using "1.IH" [OF True s1(2)] "1.prems"(3) by force
    moreover have "max (i + 1) hi = max i hi" using True by simp
    ultimately show ?thesis by simp
  next
    case False
    then show ?thesis using "1.prems"(1,2) by (subst (asm) for_loop.simps) (simp add: max_def)
  qed
qed

text \<open>
  A loop whose iteration \<open>i\<close> assigns lane \<open>i\<close> of the destination, or leaves it alone.
\<close>

lemma lane_loop_total:
  assumes lo: "lo < hi \<Longrightarrow> 0 \<le> lo" and hi: "lo < hi \<Longrightarrow> hi \<le> int n"
    and len: "length res = n"
    and body: "\<And>i r. lo \<le> i \<Longrightarrow> i < hi \<Longrightarrow> length r = n \<Longrightarrow>
                 body i r = Inr (case ob i of None \<Rightarrow> r | Some x \<Rightarrow> r[nat i := x])"
  shows "\<exists>r. for_loop lo hi body res = Inr r \<and> length r = n \<and>
           (\<forall>j<n. r ! j = (if lo \<le> int j \<and> int j < hi
                           then (case ob (int j) of None \<Rightarrow> res ! j | Some x \<Rightarrow> x)
                           else res ! j))"
proof -
  define I where "I i r \<longleftrightarrow> length r = n \<and>
           (\<forall>j<n. r ! j = (if lo \<le> int j \<and> int j < i
                           then (case ob (int j) of None \<Rightarrow> res ! j | Some x \<Rightarrow> x)
                           else res ! j))" for i r
  have init: "I lo res" by (auto simp: I_def len)
  have step: "\<exists>s'. body i s = Inr s' \<and> I (i + 1) s'" if "lo \<le> i" "i < hi" "I i s" for i s
  proof -
    have ls: "length s = n" using that(3) by (simp add: I_def)
    have b: "body i s = Inr (case ob i of None \<Rightarrow> s | Some x \<Rightarrow> s[nat i := x])"
      by (rule body [OF that(1,2) ls])
    have "I (i + 1) (case ob i of None \<Rightarrow> s | Some x \<Rightarrow> s[nat i := x])"
      unfolding I_def
    proof (intro conjI allI impI)
      show "length (case ob i of None \<Rightarrow> s | Some x \<Rightarrow> s[nat i := x]) = n"
        using ls by (simp split: option.split)
    next
      fix j assume j: "j < n"
      have sj: "s ! j = (if lo \<le> int j \<and> int j < i
                           then (case ob (int j) of None \<Rightarrow> res ! j | Some x \<Rightarrow> x)
                           else res ! j)"
        using that(3) j by (simp add: I_def)
      show "(case ob i of None \<Rightarrow> s | Some x \<Rightarrow> s[nat i := x]) ! j =
            (if lo \<le> int j \<and> int j < i + 1
                then (case ob (int j) of None \<Rightarrow> res ! j | Some x \<Rightarrow> x) else res ! j)"
      proof (cases "int j = i")
        case True
        then have nj: "nat i = j" by simp
        show ?thesis using True that(1) j ls sj nj
          by (auto split: option.split)
      next
        case False
        then have "nat i \<noteq> j" using that(1,2) lo by auto
        then show ?thesis using False sj
          by (auto split: option.split)
      qed
    qed
    with b show ?thesis by simp
  qed
  from for_loop_total [of I lo res hi body, OF init step]
  obtain r where r: "for_loop lo hi body res = Inr r" "I (max lo hi) r" by blast
  have "\<forall>j<n. r ! j = (if lo \<le> int j \<and> int j < hi
                           then (case ob (int j) of None \<Rightarrow> res ! j | Some x \<Rightarrow> x)
                           else res ! j)"
    using r(2) by (auto simp: I_def max_def)
  with r show ?thesis by (auto simp: I_def)
qed

section \<open>Lane rotation\<close>

text \<open>
  The two loops of \<open>realv_align\<close> on the lanes of a destination that is neither source:
  the sources \<open>v2\<close> and \<open>v3\<close> are then the same lists throughout.
\<close>

lemma align_loops_lanes:
  assumes k: "0 \<le> k" "k \<le> VLEN"
    and len: "length res = nat VLEN" "length v2 = nat VLEN" "length v3 = nat VLEN"
  shows "\<exists>r. bindE (for_loop 0 (VLEN - k) (\<lambda>i r. bindE (rd v3 (i + k)) (wr r i)) res)
             (for_loop (VLEN - k) VLEN (\<lambda>i r. bindE (rd v2 (i + k - VLEN)) (wr r i))) = Inr r \<and> length r = nat VLEN \<and>
           (\<forall>j<nat VLEN. r ! j = (if int j < VLEN - k then v3 ! nat (int j + k)
                                   else v2 ! nat (int j + k - VLEN)))"
proof -
  let ?n = "nat VLEN"
  let ?b1 = "\<lambda>i res. bindE (rd v3 (i + k)) (wr res i)"
  let ?b2 = "\<lambda>i res. bindE (rd v2 (i + k - VLEN)) (wr res i)"
  have b1: "?b1 i r = Inr (case Some (v3 ! nat (i + k)) of None \<Rightarrow> r | Some x \<Rightarrow> r[nat i := x])"
    if "0 \<le> i" "i < VLEN - k" "length r = ?n" for i r
    using that k len by (simp add: bindE_def rd_def wr_def)
  have b2: "?b2 i r = Inr (case Some (v2 ! nat (i + k - VLEN)) of None \<Rightarrow> r | Some x \<Rightarrow> r[nat i := x])"
    if "VLEN - k \<le> i" "i < VLEN" "length r = ?n" for i r
    using that k len by (simp add: bindE_def rd_def wr_def)
  have "\<exists>r. for_loop 0 (VLEN - k) ?b1 res = Inr r \<and> length r = ?n \<and>
    (\<forall>j<?n. r ! j = (if 0 \<le> int j \<and> int j < VLEN - k
                        then (case Some (v3 ! nat (int j + k)) of None \<Rightarrow> res ! j | Some x \<Rightarrow> x)
                        else res ! j))"
  proof (rule lane_loop_total [where ob = "\<lambda>i. Some (v3 ! nat (i + k))"])
    show "(0::int) \<le> 0" by simp
    show "VLEN - k \<le> int ?n" using k by simp
    show "length res = ?n" by (rule len)
  qed (rule b1)
  then obtain r1 where r1: "for_loop 0 (VLEN - k) ?b1 res = Inr r1" "length r1 = ?n"
    "\<And>j. j < ?n \<Longrightarrow> r1 ! j = (if int j < VLEN - k then v3 ! nat (int j + k) else res ! j)"
    by fastforce
  have "\<exists>r. for_loop (VLEN - k) VLEN ?b2 r1 = Inr r \<and> length r = ?n \<and>
    (\<forall>j<?n. r ! j = (if VLEN - k \<le> int j \<and> int j < VLEN
                        then (case Some (v2 ! nat (int j + k - VLEN)) of None \<Rightarrow> r1 ! j | Some x \<Rightarrow> x)
                        else r1 ! j))"
  proof (rule lane_loop_total [where ob = "\<lambda>i. Some (v2 ! nat (i + k - VLEN))"])
    show "0 \<le> VLEN - k" using k by simp
    show "VLEN \<le> int ?n" by simp
    show "length r1 = ?n" by (rule r1(2))
  qed (rule b2)
  then obtain r2 where r2: "for_loop (VLEN - k) VLEN ?b2 r1 = Inr r2" "length r2 = ?n"
    "\<And>j. j < ?n \<Longrightarrow> r2 ! j = (if VLEN - k \<le> int j then v2 ! nat (int j + k - VLEN) else r1 ! j)"
    by fastforce
  have "bindE (for_loop 0 (VLEN - k) (\<lambda>i r. bindE (rd v3 (i + k)) (wr r i)) res)
             (for_loop (VLEN - k) VLEN (\<lambda>i r. bindE (rd v2 (i + k - VLEN)) (wr r i))) = Inr r2"
    using r1(1) r2(1) by (simp add: bindE_def)
  moreover have "\<forall>j<?n. r2 ! j = (if int j < VLEN - k then v3 ! nat (int j + k)
                                   else v2 ! nat (int j + k - VLEN))"
    using r1(3) r2(3) by simp
  ultimately show ?thesis using r2(2) by blast
qed

lemma align_loops_window:
  assumes "1 \<le> VLEN" and "0 < k" and "k < VLEN"
    and "length res = nat VLEN" and "length v2 = nat VLEN" and "length v3 = nat VLEN"
  shows "\<exists>r. bindE (for_loop 0 (VLEN - k) (\<lambda>i r. bindE (rd v3 (i + k)) (wr r i)) res)
             (for_loop (VLEN - k) VLEN (\<lambda>i r. bindE (rd v2 (i + k - VLEN)) (wr r i))) = Inr r \<and> length r = nat VLEN \<and>
           (\<forall>i. 0 \<le> i \<and> i < VLEN - k \<longrightarrow> r ! nat i = v3 ! nat (i + k)) \<and>
           (\<forall>i. VLEN - k \<le> i \<and> i < VLEN \<longrightarrow> r ! nat i = v2 ! nat (i + k - VLEN)) \<and>
           r = take (nat VLEN) (drop (nat k) (v3 @ v2))"
proof -
  from align_loops_lanes [of k VLEN res v2 v3] assms
  obtain r where r: "bindE (for_loop 0 (VLEN - k) (\<lambda>i r. bindE (rd v3 (i + k)) (wr r i)) res)
             (for_loop (VLEN - k) VLEN (\<lambda>i r. bindE (rd v2 (i + k - VLEN)) (wr r i))) = Inr r" "length r = nat VLEN"
    and lanes: "\<And>j. j < nat VLEN \<Longrightarrow> r ! j = (if int j < VLEN - k then v3 ! nat (int j + k)
                                   else v2 ! nat (int j + k - VLEN))"
    by auto
  have a: "r ! nat i = v3 ! nat (i + k)" if "0 \<le> i \<and> i < VLEN - k" for i
    using lanes [of "nat i"] that assms(2) by simp
  have b: "r ! nat i = v2 ! nat (i + k - VLEN)" if "VLEN - k \<le> i \<and> i < VLEN" for i
    using lanes [of "nat i"] that assms(2,3) by simp
  have c: "r = take (nat VLEN) (drop (nat k) (v3 @ v2))"
  proof (rule nth_equalityI)
    show "length r = length (take (nat VLEN) (drop (nat k) (v3 @ v2)))"
      using r(2) assms by simp
  next
    fix j assume "j < length r"
    then have j: "j < nat VLEN" using r(2) by simp
    have kj: "nat k + j < length (v3 @ v2)" using j assms by simp
    have t: "take (nat VLEN) (drop (nat k) (v3 @ v2)) ! j = (v3 @ v2) ! (nat k + j)"
      using j kj by (simp del: drop_append take_append)
    show "r ! j = take (nat VLEN) (drop (nat k) (v3 @ v2)) ! j"
    proof (cases "int j < VLEN - k")
      case True
      then have 1: "nat k + j < length v3" using assms by simp
      have 2: "nat (int j + k) = nat k + j" using assms(2) by simp
      have "(v3 @ v2) ! (nat k + j) = v3 ! (nat k + j)" using 1 by (simp add: nth_append)
      then show ?thesis using lanes [OF j] True t 2 by simp
    next
      case False
      then have 1: "\<not> nat k + j < length v3" using assms by simp
      have 2: "nat (int j + k - VLEN) = nat k + j - length v3" using assms False by simp
      have "(v3 @ v2) ! (nat k + j) = v2 ! (nat k + j - length v3)" using 1 by (simp add: nth_append)
      then show ?thesis using lanes [OF j] False t 2 by simp
    qed
  qed
  from r a b c show ?thesis by blast
qed

subsection \<open>The destination as an object of the store\<close>

text \<open>
  A loop on the store that only changes the object \<open>res\<close>, and whose iterations read
  nothing else of the store than what they would read of the store at the start, is the
  loop on the lanes of \<open>res\<close>.  This is the case of \<open>realv_align\<close> when the destination is
  neither of the two sources.
\<close>

lemma bindE_Inr: "bindE (Inr x) f = f x"
  by (simp add: bindE_def)

lemma bindE_Inl: "bindE (Inl e) f = Inl e"
  by (simp add: bindE_def)

lemma bindE_store:
  assumes "bindE m (\<lambda>r. Inr (st(res := r))) = Inr s"
  shows "\<exists>r. m = Inr r \<and> s = st(res := r)"
  using assms by (cases m) (auto simp: bindE_def)

lemma store_loop_sim:
  assumes body: "\<And>i s. (\<forall>p. p \<noteq> res \<longrightarrow> s p = st p) \<Longrightarrow>
                   bodyS i s = bindE (bodyL i (s res)) (\<lambda>r. Inr (s(res := r)))"
    and frame: "\<forall>p. p \<noteq> res \<longrightarrow> s p = st p"
  shows "for_loop lo hi bodyS s = bindE (for_loop lo hi bodyL (s res)) (\<lambda>r. Inr (s(res := r)))"
  using body frame
proof (induction lo hi bodyS s rule: for_loop.induct)
  case (1 i hi bodyS s)
  show ?case
  proof (cases "i < hi")
    case False
    have a: "for_loop i hi bodyS s = Inr s" using False by (subst for_loop.simps) simp
    have b: "for_loop i hi bodyL (s res) = Inr (s res)"
      using False by (subst for_loop.simps) simp
    show ?thesis by (simp only: a b bindE_def sum.case fun_upd_triv)
  next
    case True
    have b: "bodyS i s = bindE (bodyL i (s res)) (\<lambda>r. Inr (s(res := r)))"
      using "1.prems" by blast
    have S: "for_loop i hi bodyS s = bindE (bodyS i s) (for_loop (i + 1) hi bodyS)"
      using True by (subst for_loop.simps) simp
    have L: "for_loop i hi bodyL (s res) = bindE (bodyL i (s res)) (for_loop (i + 1) hi bodyL)"
      using True by (subst for_loop.simps) simp
    show ?thesis
    proof (cases "bodyL i (s res)")
      case (Inl e)
      then show ?thesis using b S L by (simp add: bindE_def)
    next
      case (Inr r1)
      then have s1: "bodyS i s = Inr (s(res := r1))" using b by (simp add: bindE_def)
      have f1: "\<forall>p. p \<noteq> res \<longrightarrow> (s(res := r1)) p = st p" using "1.prems"(2) by simp
      have "for_loop (i + 1) hi bodyS (s(res := r1)) =
            bindE (for_loop (i + 1) hi bodyL ((s(res := r1)) res))
              (\<lambda>r. Inr ((s(res := r1))(res := r)))"
        by (rule "1.IH" [OF True "1.prems"(1) f1])
      then have IH: "for_loop (i + 1) hi bodyS (s(res := r1)) =
            bindE (for_loop (i + 1) hi bodyL r1) (\<lambda>r. Inr (s(res := r)))"
        by (simp only: fun_upd_same fun_upd_upd)
      have "for_loop i hi bodyS s = for_loop (i + 1) hi bodyS (s(res := r1))"
        by (simp only: S s1 bindE_def sum.case)
      also note IH
      also have "bindE (for_loop (i + 1) hi bodyL r1) (\<lambda>r. Inr (s(res := r))) =
                 bindE (for_loop i hi bodyL (s res)) (\<lambda>r. Inr (s(res := r)))"
        by (simp only: L Inr bindE_def sum.case)
      finally show ?thesis .
    qed
  qed
qed

lemma realv_align_distinct:
  assumes "res \<noteq> v2" and "res \<noteq> v3"
  shows "realv_align VLEN st res v2 v3 count =
           bindE (bindE (for_loop 0 (VLEN - count)
                           (\<lambda>i r. bindE (rd (st v3) (i + count)) (wr r i)) (st res))
                    (for_loop (VLEN - count) VLEN
                           (\<lambda>i r. bindE (rd (st v2) (i + count - VLEN)) (wr r i))))
             (\<lambda>r. Inr (st(res := r)))"
proof -
  let ?S1 = "\<lambda>i s. bindE (rd_reg s v3 (i + count)) (wr_reg s res i)"
  let ?S2 = "\<lambda>i s. bindE (rd_reg s v2 (i + count - VLEN)) (wr_reg s res i)"
  let ?L1 = "\<lambda>i r. bindE (rd (st v3) (i + count)) (wr r i)"
  let ?L2 = "\<lambda>i r. bindE (rd (st v2) (i + count - VLEN)) (wr r i)"
  have b1: "?S1 i s = bindE (?L1 i (s res)) (\<lambda>r. Inr (s(res := r)))"
    if "\<forall>p. p \<noteq> res \<longrightarrow> s p = st p" for i s
    using that assms by (simp add: rd_reg_def wr_reg_def bindE_def split: sum.splits)
  have b2: "?S2 i s = bindE (?L2 i (s res)) (\<lambda>r. Inr (s(res := r)))"
    if "\<forall>p. p \<noteq> res \<longrightarrow> s p = st p" for i s
    using that assms by (simp add: rd_reg_def wr_reg_def bindE_def split: sum.splits)
  have l1: "for_loop 0 (VLEN - count) ?S1 st =
      bindE (for_loop 0 (VLEN - count) ?L1 (st res)) (\<lambda>r. Inr (st(res := r)))"
    by (rule store_loop_sim [where st = st]) (use b1 in simp_all)
  have l2: "for_loop (VLEN - count) VLEN ?S2 (st(res := r1)) =
      bindE (for_loop (VLEN - count) VLEN ?L2 r1) (\<lambda>r. Inr (st(res := r)))" for r1
  proof -
    have "for_loop (VLEN - count) VLEN ?S2 (st(res := r1)) =
      bindE (for_loop (VLEN - count) VLEN ?L2 ((st(res := r1)) res))
        (\<lambda>r. Inr ((st(res := r1))(res := r)))"
      by (rule store_loop_sim [where st = st]) (use b2 in simp_all)
    then show ?thesis by (simp only: fun_upd_same fun_upd_upd)
  qed
  show ?thesis
  proof (cases "for_loop 0 (VLEN - count) ?L1 (st res)")
    case (Inl e)
    then show ?thesis unfolding realv_align_def l1 by (simp only: bindE_Inl)
  next
    case (Inr r1)
    then show ?thesis unfolding realv_align_def l1 by (simp only: bindE_Inr l2)
  qed
qed

text \<open>
  With a destination of its own, \<open>realv_align\<close> returns for every offset \<open>0 < k < VLEN\<close>,
  changes no other register, and leaves in \<open>res\<close> the window of \<open>VLEN\<close> lanes at offset \<open>k\<close>
  of \<open>v3\<close> followed by \<open>v2\<close>.
\<close>

lemma realv_align_distinct_window:
  assumes "1 \<le> VLEN" and "0 < k" and "k < VLEN"
    and "length (st res) = nat VLEN" and "length (st v2) = nat VLEN"
    and "length (st v3) = nat VLEN"
    and "res \<noteq> v2" and "res \<noteq> v3"
  shows "\<exists>r. realv_align VLEN st res v2 v3 k = Inr (st(res := r)) \<and> length r = nat VLEN \<and>
           (\<forall>i. 0 \<le> i \<and> i < VLEN - k \<longrightarrow> r ! nat i = st v3 ! nat (i + k)) \<and>
           (\<forall>i. VLEN - k \<le> i \<and> i < VLEN \<longrightarrow> r ! nat i = st v2 ! nat (i + k - VLEN)) \<and>
           r = take (nat VLEN) (drop (nat k) (st v3 @ st v2))"
proof -
  from align_loops_window [OF assms(1-6)] obtain r where
    r: "bindE (for_loop 0 (VLEN - k) (\<lambda>i r. bindE (rd (st v3) (i + k)) (wr r i)) (st res))
          (for_loop (VLEN - k) VLEN (\<lambda>i r. bindE (rd (st v2) (i + k - VLEN)) (wr r i))) = Inr r"
    and p: "length r = nat VLEN"
      "\<forall>i. 0 \<le> i \<and> i < VLEN - k \<longrightarrow> r ! nat i = st v3 ! nat (i + k)"
      "\<forall>i. VLEN - k \<le> i \<and> i < VLEN \<longrightarrow> r ! nat i = st v2 ! nat (i + k - VLEN)"
      "r = take (nat VLEN) (drop (nat k) (st v3 @ st v2))"
    by blast
  have "realv_align VLEN st res v2 v3 k = Inr (st(res := r))"
    by (simp only: realv_align_distinct [OF assms(7,8)] r bindE_Inr)
  with p show ?thesis by blast
qed

text \<open>
  Whatever objects the arguments are, a call that returns has changed no register but the
  destination, which keeps its number of lanes.
\<close>

lemma store_loop_frame:
  assumes run: "for_loop lo hi bodyS s0 = Inr t"
    and body: "\<And>i s s'. bodyS i s = Inr s' \<Longrightarrow>
                 (\<forall>p. p \<noteq> res \<longrightarrow> s' p = s p) \<and> length (s' res) = length (s res) \<and>
                 (\<forall>j<length (s res). keep j \<longrightarrow> s' res ! j = s res ! j)"
  shows "(\<forall>p. p \<noteq> res \<longrightarrow> t p = s0 p) \<and> length (t res) = length (s0 res) \<and>
         (\<forall>j<length (s0 res). keep j \<longrightarrow> t res ! j = s0 res ! j)"
proof -
  define I where "I i s \<longleftrightarrow> (\<forall>p. p \<noteq> res \<longrightarrow> s p = s0 p) \<and> length (s res) = length (s0 res) \<and>
      (\<forall>j<length (s0 res). keep j \<longrightarrow> s res ! j = s0 res ! j)" for i :: int and s
  have init: "I lo s0" by (simp add: I_def)
  have step: "I (i + 1) s'" if "I i s" "bodyS i s = Inr s'" for i s s'
    using body [OF that(2)] that(1) by (simp add: I_def)
  have "I (max lo hi) t"
    by (rule for_loop_partial [where I = I, OF run init]) (rule step)
  then show ?thesis by (simp add: I_def)
qed

lemma wr_reg_frame:
  assumes "wr_reg s res i x = Inr s'"
  shows "(\<forall>p. p \<noteq> res \<longrightarrow> s' p = s p) \<and> length (s' res) = length (s res) \<and>
         (\<forall>j. j \<noteq> nat i \<longrightarrow> s' res ! j = s res ! j) \<and> 0 \<le> i"
  using assms by (auto simp: wr_reg_def wr_def bindE_def split: if_splits)

lemma realv_align_frame:
  assumes "realv_align VLEN st res v2 v3 count = Inr su"
  shows "(\<forall>p. p \<noteq> res \<longrightarrow> su p = st p) \<and> length (su res) = length (st res)"
proof -
  from assms obtain s1 where
    s1: "for_loop 0 (VLEN - count)
           (\<lambda>i st. bindE (rd_reg st v3 (i + count)) (wr_reg st res i)) st = Inr s1"
    and s2: "for_loop (VLEN - count) VLEN
           (\<lambda>i st. bindE (rd_reg st v2 (i + count - VLEN)) (wr_reg st res i)) s1 = Inr su"
    unfolding realv_align_def by (cases "for_loop 0 (VLEN - count)
           (\<lambda>i st. bindE (rd_reg st v3 (i + count)) (wr_reg st res i)) st")
      (simp_all add: bindE_Inl bindE_Inr)
  have a: "(\<forall>p. p \<noteq> res \<longrightarrow> s1 p = st p) \<and> length (s1 res) = length (st res) \<and>
         (\<forall>j<length (st res). False \<longrightarrow> s1 res ! j = st res ! j)"
  proof (rule store_loop_frame [OF s1])
    fix i s s'
    assume "bindE (rd_reg s v3 (i + count)) (wr_reg s res i) = Inr s'"
    then obtain x where "wr_reg s res i x = Inr s'"
      by (auto simp: bindE_def split: sum.splits)
    from wr_reg_frame [OF this]
    show "(\<forall>p. p \<noteq> res \<longrightarrow> s' p = s p) \<and> length (s' res) = length (s res) \<and>
         (\<forall>j<length (s res). False \<longrightarrow> s' res ! j = s res ! j)" by simp
  qed
  have b: "(\<forall>p. p \<noteq> res \<longrightarrow> su p = s1 p) \<and> length (su res) = length (s1 res) \<and>
         (\<forall>j<length (s1 res). False \<longrightarrow> su res ! j = s1 res ! j)"
  proof (rule store_loop_frame [OF s2])
    fix i s s'
    assume "bindE (rd_reg s v2 (i + count - VLEN)) (wr_reg s res i) = Inr s'"
    then obtain x where "wr_reg s res i x = Inr s'"
      by (auto simp: bindE_def split: sum.splits)
    from wr_reg_frame [OF this]
    show "(\<forall>p. p \<noteq> res \<longrightarrow> s' p = s p) \<and> length (s' res) = length (s res) \<and>
         (\<forall>j<length (s res). False \<longrightarrow> s' res ! j = s res ! j)" by simp
  qed
  from a b show ?thesis by simp
qed

text \<open>
  Claim C1 (for every width \<open>VLEN \<ge> 1\<close> and offset \<open>0 < k < VLEN\<close>,
  \<open>realv_align(res, v2, v3, k)\<close> leaves in \<open>res\<close> the lanes \<open>v3[i+k]\<close> for \<open>0 \<le> i < VLEN-k\<close> and
  \<open>v2[i+k-VLEN]\<close> for \<open>VLEN-k \<le> i < VLEN\<close>, the window at offset \<open>k\<close> of \<open>v3\<close> followed by \<open>v2\<close>)
  fails on the code when the destination is the register passed as \<open>v2\<close>.  The first loop
  has overwritten the low lanes of that register when the second loop reads them: with
  \<open>VLEN = 4\<close>, \<open>v3 = {10, 20, 30, 40}\<close> at address 0 and \<open>v2 = {50, 60, 70, 80}\<close> at address 1,
  the call \<open>realv_align(v2, v2, v3, 1)\<close> leaves \<open>{20, 30, 40, 20}\<close> in the destination, where
  the window is \<open>{20, 30, 40, 50}\<close>; the same call with a destination of its own, at
  address 2, leaves the window there.  \<open>realv_permute\<close> and \<open>realv_permute2\<close> copy their
  sources first, for the case that the destination is one of them.
\<close>

theorem realv_align_aliased_destination:
  "realv_align 4 ((\<lambda>p. [])(0 := [10, 20, 30, 40], 1 := [50, 60, 70, 80 :: 32 word])) 1 1 0 1
     = Inr ((\<lambda>p. [])(0 := [10, 20, 30, 40], 1 := [20, 30, 40, 20])) \<and>
   take 4 (drop 1 ([10, 20, 30, 40] @ [50, 60, 70, 80 :: 32 word])) = [20, 30, 40, 50] \<and>
   realv_align 4 ((\<lambda>p. [])(0 := [10, 20, 30, 40], 1 := [50, 60, 70, 80 :: 32 word],
                            2 := [0, 0, 0, 0])) 2 1 0 1
     = Inr ((\<lambda>p. [])(0 := [10, 20, 30, 40], 1 := [50, 60, 70, 80], 2 := [20, 30, 40, 50]))"
  by (simp add: realv_align_def for_loop.simps bindE_def rd_def wr_def rd_reg_def wr_reg_def)

section \<open>Masked operations\<close>

lemma mask_bit_eq: "0 \<le> i \<Longrightarrow> i < 32 \<Longrightarrow> mask_bit k1 i = Inr (bit k1 (nat i))"
  by (simp add: mask_bit_def bit_iff_odd_drop_bit and_one_eq mod_2_eq_odd)

lemma lane_loop_reads:
  assumes run: "for_loop lo hi (\<lambda>i r. bindE (src i) (wr r i)) res = Inr u"
    and len: "length res = n"
  shows "length u = n \<and> (\<forall>i. lo \<le> i \<and> i < hi \<longrightarrow> 0 \<le> i \<and> i < int n \<and> (\<exists>x. src i = Inr x))"
proof -
  define I where "I i s \<longleftrightarrow> length s = n \<and>
      (\<forall>j. lo \<le> j \<and> j < i \<longrightarrow> 0 \<le> j \<and> j < int n \<and> (\<exists>x. src j = Inr x))" for i and s :: "'a list"
  have init: "I lo res" by (auto simp: I_def len)
  have step: "I (i + 1) s'"
    if "lo \<le> i" "i < hi" "I i s" "bindE (src i) (wr s i) = Inr s'" for i s s'
  proof -
    from that(4) obtain x where x: "src i = Inr x" "wr s i x = Inr s'"
      by (auto simp: bindE_def split: sum.splits)
    have ls: "length s = n" using that(3) by (simp add: I_def)
    from x(2) ls have i: "0 \<le> i" "i < int n" "length s' = n"
      by (auto simp: wr_def split: if_splits)
    have "0 \<le> j \<and> j < int n \<and> (\<exists>x. src j = Inr x)" if j: "lo \<le> j \<and> j < i + 1" for j
    proof (cases "j = i")
      case True
      then show ?thesis using i x(1) by simp
    next
      case False
      then have "lo \<le> j \<and> j < i" using j by simp
      then show ?thesis using \<open>I i s\<close> by (simp add: I_def)
    qed
    then show ?thesis using i(3) by (simp add: I_def)
  qed
  have "I (max lo hi) u"
    by (rule for_loop_partial [where I = I, OF run init]) (rule step)
  then show ?thesis by (auto simp: I_def max_def)
qed

lemma masked_loop:
  assumes run: "for_loop lo hi (\<lambda>i r. bindE (src i) (wr r i)) ru = Inr u"
    and len: "length ru = n" "length rm = n" and n: "n \<le> 32"
  shows "\<exists>m. for_loop lo hi
               (\<lambda>i r. bindE (mask_bit k1 i) (\<lambda>b. if b then bindE (src i) (wr r i) else Inr r)) rm
             = Inr m \<and> length m = n \<and> length u = n \<and>
           (\<forall>j<n. if lo \<le> int j \<and> int j < hi
                   then m ! j = (if bit k1 j then u ! j else rm ! j)
                   else m ! j = rm ! j \<and> u ! j = ru ! j)"
proof -
  let ?bu = "\<lambda>i r. bindE (src i) (wr r i)"
  let ?bm = "\<lambda>i r. bindE (mask_bit k1 i) (\<lambda>b. if b then bindE (src i) (wr r i) else Inr r)"
  define g where "g i = projr (src i)" for i
  from lane_loop_reads [OF run len(1)]
  have lu: "length u = n"
    and rng: "\<And>i. lo \<le> i \<Longrightarrow> i < hi \<Longrightarrow> 0 \<le> i \<and> i < int n \<and> (\<exists>x. src i = Inr x)"
    by auto
  have src: "src i = Inr (g i)" if "lo \<le> i" "i < hi" for i
    using rng [OF that] by (auto simp: g_def)
  have lo: "0 \<le> lo" if "lo < hi" using rng [of lo] that by simp
  have hi: "hi \<le> int n" if "lo < hi" using rng [of "hi - 1"] that by simp
  have bu: "?bu i r = Inr (case Some (g i) of None \<Rightarrow> r | Some x \<Rightarrow> r[nat i := x])"
    if "lo \<le> i" "i < hi" "length r = n" for i r
    using src [OF that(1,2)] rng [OF that(1,2)] that(3) by (simp add: bindE_def wr_def)
  have bm: "?bm i r = Inr (case (if bit k1 (nat i) then Some (g i) else None) of
                              None \<Rightarrow> r | Some x \<Rightarrow> r[nat i := x])"
    if "lo \<le> i" "i < hi" "length r = n" for i r
  proof -
    have "mask_bit k1 i = Inr (bit k1 (nat i))"
      using rng [OF that(1,2)] n by (intro mask_bit_eq) auto
    then show ?thesis
      using src [OF that(1,2)] rng [OF that(1,2)] that(3) by (simp add: bindE_def wr_def)
  qed
  have "\<exists>r. for_loop lo hi ?bu ru = Inr r \<and> length r = n \<and>
          (\<forall>j<n. r ! j = (if lo \<le> int j \<and> int j < hi
                           then (case Some (g (int j)) of None \<Rightarrow> ru ! j | Some x \<Rightarrow> x)
                           else ru ! j))"
    by (rule lane_loop_total [where ob = "\<lambda>i. Some (g i)", OF lo hi len(1) bu])
  with run have u: "\<And>j. j < n \<Longrightarrow> u ! j = (if lo \<le> int j \<and> int j < hi then g (int j) else ru ! j)"
    by auto
  have "\<exists>r. for_loop lo hi ?bm rm = Inr r \<and> length r = n \<and>
          (\<forall>j<n. r ! j = (if lo \<le> int j \<and> int j < hi
                           then (case (if bit k1 (nat (int j)) then Some (g (int j)) else None) of
                                   None \<Rightarrow> rm ! j | Some x \<Rightarrow> x)
                           else rm ! j))"
    by (rule lane_loop_total [where ob = "\<lambda>i. if bit k1 (nat i) then Some (g i) else None",
          OF lo hi len(2) bm])
  then obtain m where m: "for_loop lo hi ?bm rm = Inr m" "length m = n"
    "\<And>j. j < n \<Longrightarrow> m ! j = (if lo \<le> int j \<and> int j < hi
                           then (if bit k1 j then g (int j) else rm ! j)
                           else rm ! j)"
    by fastforce
  have "\<forall>j<n. if lo \<le> int j \<and> int j < hi
                   then m ! j = (if bit k1 j then u ! j else rm ! j)
                   else m ! j = rm ! j \<and> u ! j = ru ! j"
    using u m(3) by simp
  with m(1,2) lu show ?thesis by blast
qed

lemma align_loops_masked_lanes:
  assumes V: "VLEN \<le> 32" and len: "length res = nat VLEN"
    and run: "bindE (for_loop 0 (VLEN - count) (\<lambda>i r. bindE (rd v3 (i + count)) (wr r i)) res)
             (for_loop (VLEN - count) VLEN (\<lambda>i r. bindE (rd v2 (i + count - VLEN)) (wr r i))) = Inr u"
  shows "\<exists>m. bindE (for_loop 0 (VLEN - count)
                (\<lambda>i r. bindE (mask_bit k1 i)
                   (\<lambda>b. if b then bindE (rd v3 (i + count)) (wr r i) else Inr r)) res)
             (for_loop (VLEN - count) VLEN
                (\<lambda>i r. bindE (mask_bit k1 i)
                   (\<lambda>b. if b then bindE (rd v2 (i + count - VLEN)) (wr r i) else Inr r))) = Inr m \<and> length m = nat VLEN \<and>
           (\<forall>i<nat VLEN. m ! i = (if bit k1 i then u ! i else res ! i))"
proof -
  let ?n = "nat VLEN"
  have n: "?n \<le> 32" using V by simp
  from run obtain r1 where
    r1: "for_loop 0 (VLEN - count) (\<lambda>i r. bindE (rd v3 (i + count)) (wr r i)) res = Inr r1"
    and r2: "for_loop (VLEN - count) VLEN (\<lambda>i r. bindE (rd v2 (i + count - VLEN)) (wr r i)) r1 = Inr u"
    by (auto simp: bindE_def split: sum.splits)
  from masked_loop [OF r1 len len n, of k1] obtain m1 where
    m1: "for_loop 0 (VLEN - count)
           (\<lambda>i r. bindE (mask_bit k1 i)
              (\<lambda>b. if b then bindE (rd v3 (i + count)) (wr r i) else Inr r)) res = Inr m1"
      "length m1 = ?n" "length r1 = ?n"
    and l1: "\<And>j. j < ?n \<Longrightarrow> (if 0 \<le> int j \<and> int j < VLEN - count
                   then m1 ! j = (if bit k1 j then r1 ! j else res ! j)
                   else m1 ! j = res ! j \<and> r1 ! j = res ! j)"
    by blast
  from masked_loop [OF r2 m1(3) m1(2) n, of k1] obtain m where
    m: "for_loop (VLEN - count) VLEN
           (\<lambda>i r. bindE (mask_bit k1 i)
              (\<lambda>b. if b then bindE (rd v2 (i + count - VLEN)) (wr r i) else Inr r)) m1 = Inr m"
      "length m = ?n"
    and l2: "\<And>j. j < ?n \<Longrightarrow> (if VLEN - count \<le> int j \<and> int j < VLEN
                   then m ! j = (if bit k1 j then u ! j else m1 ! j)
                   else m ! j = m1 ! j \<and> u ! j = r1 ! j)"
    by blast
  have "bindE (for_loop 0 (VLEN - count)
                (\<lambda>i r. bindE (mask_bit k1 i)
                   (\<lambda>b. if b then bindE (rd v3 (i + count)) (wr r i) else Inr r)) res)
             (for_loop (VLEN - count) VLEN
                (\<lambda>i r. bindE (mask_bit k1 i)
                   (\<lambda>b. if b then bindE (rd v2 (i + count - VLEN)) (wr r i) else Inr r))) = Inr m"
    using m1(1) m(1) by (simp add: bindE_def)
  moreover have "m ! j = (if bit k1 j then u ! j else res ! j)" if "j < ?n" for j
    using l1 [OF that] l2 [OF that] by (auto split: if_splits)
  ultimately show ?thesis using m(2) by blast
qed

lemma realv_permute_masked_lanes:
  assumes V: "VLEN \<le> 32" and len: "length res = nat VLEN"
    and run: "realv_permute VLEN res ctrl v3 = Inr u"
  shows "\<exists>m. realv_permute_masked VLEN res ctrl v3 k1 = Inr m \<and> length m = nat VLEN \<and>
           (\<forall>i<nat VLEN. m ! i = (if bit k1 i then u ! i else res ! i))"
proof -
  let ?n = "nat VLEN"
  let ?src = "\<lambda>i. bindE (rd ctrl i) (\<lambda>c. rd v3 (uint c))"
  have n: "?n \<le> 32" using V by simp
  have a: "(\<lambda>i r. bindE (rd ctrl i) (\<lambda>c. bindE (rd v3 (uint c)) (wr r i)))
         = (\<lambda>i r. bindE (?src i) (wr r i))"
    by (intro ext) (simp add: bindE_def split: sum.splits)
  have am: "(\<lambda>i r. bindE (mask_bit k1 i)
              (\<lambda>b. if b then bindE (rd ctrl i) (\<lambda>c. bindE (rd v3 (uint c)) (wr r i)) else Inr r))
         = (\<lambda>i r. bindE (mask_bit k1 i) (\<lambda>b. if b then bindE (?src i) (wr r i) else Inr r))"
    by (intro ext) (simp add: bindE_def split: sum.splits)
  from run have r: "for_loop 0 VLEN (\<lambda>i r. bindE (?src i) (wr r i)) res = Inr u"
    by (simp add: realv_permute_def a)
  from masked_loop [OF r len len n, of k1] obtain m where
    m: "for_loop 0 VLEN
           (\<lambda>i r. bindE (mask_bit k1 i) (\<lambda>b. if b then bindE (?src i) (wr r i) else Inr r)) res
         = Inr m" "length m = ?n"
    and l: "\<And>j. j < ?n \<Longrightarrow> (if 0 \<le> int j \<and> int j < VLEN
                   then m ! j = (if bit k1 j then u ! j else res ! j)
                   else m ! j = res ! j \<and> u ! j = res ! j)"
    by blast
  have "realv_permute_masked VLEN res ctrl v3 k1 = Inr m"
    using m(1) by (simp add: realv_permute_masked_def am)
  moreover have "m ! j = (if bit k1 j then u ! j else res ! j)" if "j < ?n" for j
    using l [OF that] that by (auto split: if_splits)
  ultimately show ?thesis using m(2) by blast
qed

lemma masked_loop_frame:
  assumes run: "for_loop lo hi
      (\<lambda>i r. bindE (mask_bit k1 i) (\<lambda>b. if b then bindE (src i) (wr r i) else Inr r)) rm = Inr m"
  shows "length m = length rm \<and> (\<forall>j<length rm. \<not> bit k1 j \<longrightarrow> m ! j = rm ! j)"
proof -
  define I where "I i s \<longleftrightarrow> length s = length rm \<and>
      (\<forall>j<length rm. \<not> bit k1 j \<longrightarrow> s ! j = rm ! j)" for i :: int and s :: "'a list"
  have init: "I lo rm" by (simp add: I_def)
  have step: "I (i + 1) s'"
    if "I i s" "bindE (mask_bit k1 i) (\<lambda>b. if b then bindE (src i) (wr s i) else Inr s) = Inr s'"
    for i s s'
  proof -
    from that(2) obtain b where b: "mask_bit k1 i = Inr b"
      and s': "(if b then bindE (src i) (wr s i) else Inr s) = Inr s'"
      by (auto simp: bindE_def split: sum.splits)
    from b have i: "0 \<le> i" "i < 32" by (auto simp: mask_bit_def split: if_splits)
    with b have bb: "b = bit k1 (nat i)" by (simp add: mask_bit_eq)
    show ?thesis
    proof (cases b)
      case False
      with s' that(1) show ?thesis by (simp add: I_def)
    next
      case True
      with s' obtain x where "wr s i x = Inr s'"
        by (auto simp: bindE_def split: sum.splits)
      then have "s' = s[nat i := x]" by (auto simp: wr_def split: if_splits)
      moreover have "nat i \<noteq> j" if "\<not> bit k1 j" for j using that True bb by auto
      ultimately show ?thesis using that(1) by (simp add: I_def)
    qed
  qed
  have "I (max lo hi) m"
    by (rule for_loop_partial [where I = I, OF run init]) (rule step)
  then show ?thesis by (simp add: I_def)
qed

lemma align_loops_masked_frame:
  assumes "bindE (for_loop 0 (VLEN - count)
                (\<lambda>i r. bindE (mask_bit k1 i)
                   (\<lambda>b. if b then bindE (rd v3 (i + count)) (wr r i) else Inr r)) res)
             (for_loop (VLEN - count) VLEN
                (\<lambda>i r. bindE (mask_bit k1 i)
                   (\<lambda>b. if b then bindE (rd v2 (i + count - VLEN)) (wr r i) else Inr r))) = Inr m"
  shows "length m = length res \<and> (\<forall>i<length res. \<not> bit k1 i \<longrightarrow> m ! i = res ! i)"
proof -
  from assms obtain m1 where
    m1: "for_loop 0 (VLEN - count)
           (\<lambda>i r. bindE (mask_bit k1 i)
              (\<lambda>b. if b then bindE (rd v3 (i + count)) (wr r i) else Inr r)) res = Inr m1"
    and m: "for_loop (VLEN - count) VLEN
           (\<lambda>i r. bindE (mask_bit k1 i)
              (\<lambda>b. if b then bindE (rd v2 (i + count - VLEN)) (wr r i) else Inr r)) m1 = Inr m"
    by (auto simp: bindE_def split: sum.splits)
  from masked_loop_frame [OF m1] masked_loop_frame [OF m] show ?thesis by simp
qed

lemma realv_permute_masked_frame:
  assumes "realv_permute_masked VLEN res ctrl v3 k1 = Inr m"
  shows "length m = length res \<and> (\<forall>i<length res. \<not> bit k1 i \<longrightarrow> m ! i = res ! i)"
proof -
  have am: "(\<lambda>i r. bindE (mask_bit k1 i)
              (\<lambda>b. if b then bindE (rd ctrl i) (\<lambda>c. bindE (rd v3 (uint c)) (wr r i)) else Inr r))
         = (\<lambda>i r. bindE (mask_bit k1 i)
              (\<lambda>b. if b then bindE (bindE (rd ctrl i) (\<lambda>c. rd v3 (uint c))) (wr r i) else Inr r))"
    by (intro ext) (simp add: bindE_def split: sum.splits)
  from assms have "for_loop 0 VLEN
      (\<lambda>i r. bindE (mask_bit k1 i)
         (\<lambda>b. if b then bindE (bindE (rd ctrl i) (\<lambda>c. rd v3 (uint c))) (wr r i) else Inr r)) res
      = Inr m"
    by (simp add: realv_permute_masked_def am)
  from masked_loop_frame [OF this] show ?thesis .
qed

lemma masked_loop_sets:
  assumes run: "for_loop lo hi
      (\<lambda>i r. bindE (mask_bit k1 i) (\<lambda>b. if b then bindE (src i) (wr r i) else Inr r)) rm = Inr m"
  shows "\<forall>j<length rm. (lo \<le> int j \<and> int j < hi \<and> bit k1 j \<longrightarrow> src (int j) = Inr (m ! j)) \<and>
                        (\<not> (lo \<le> int j \<and> int j < hi) \<longrightarrow> m ! j = rm ! j)"
proof -
  define I where "I i s \<longleftrightarrow> length s = length rm \<and>
      (\<forall>j<length rm. (lo \<le> int j \<and> int j < i \<and> bit k1 j \<longrightarrow> src (int j) = Inr (s ! j)) \<and>
                      (\<not> (lo \<le> int j \<and> int j < i) \<longrightarrow> s ! j = rm ! j))"
    for i :: int and s :: "'a list"
  have init: "I lo rm" by (auto simp: I_def)
  have step: "I (i + 1) s'"
    if lo: "lo \<le> i" and inv: "I i s"
      and body: "bindE (mask_bit k1 i) (\<lambda>b. if b then bindE (src i) (wr s i) else Inr s) = Inr s'"
    for i s s'
  proof -
    from body obtain b where b: "mask_bit k1 i = Inr b"
      and s': "(if b then bindE (src i) (wr s i) else Inr s) = Inr s'"
      by (auto simp: bindE_def split: sum.splits)
    from b have i: "0 \<le> i" "i < 32" by (auto simp: mask_bit_def split: if_splits)
    with b have bb: "b = bit k1 (nat i)" by (simp add: mask_bit_eq)
    have ls: "length s = length rm" using inv by (simp add: I_def)
    show ?thesis
    proof (cases b)
      case False
      then have eq: "s' = s" using s' by simp
      have "(lo \<le> int j \<and> int j < i + 1 \<and> bit k1 j \<longrightarrow> src (int j) = Inr (s ! j)) \<and>
            (\<not> (lo \<le> int j \<and> int j < i + 1) \<longrightarrow> s ! j = rm ! j)" if j: "j < length rm" for j
      proof (cases "int j = i")
        case True
        then have "nat i = j" by simp
        then have "\<not> bit k1 j" using False bb by simp
        then show ?thesis using True lo by simp
      next
        case False
        then show ?thesis using inv j by (auto simp: I_def)
      qed
      then show ?thesis using eq ls by (simp add: I_def)
    next
      case True
      with s' obtain x where x: "src i = Inr x" "wr s i x = Inr s'"
        by (auto simp: bindE_def split: sum.splits)
      then have eq: "s' = s[nat i := x]" and il: "i < int (length s)"
        by (auto simp: wr_def split: if_splits)
      have "(lo \<le> int j \<and> int j < i + 1 \<and> bit k1 j \<longrightarrow> src (int j) = Inr (s' ! j)) \<and>
            (\<not> (lo \<le> int j \<and> int j < i + 1) \<longrightarrow> s' ! j = rm ! j)" if j: "j < length rm" for j
      proof (cases "int j = i")
        case True
        then have "nat i = j" by simp
        then have "s' ! j = x" using eq j ls by simp
        then show ?thesis using True lo x(1) by simp
      next
        case False
        then have "nat i \<noteq> j" using i by auto
        then have "s' ! j = s ! j" using eq by simp
        then show ?thesis using False inv j by (auto simp: I_def)
      qed
      then show ?thesis using eq ls by (simp add: I_def)
    qed
  qed
  have "I (max lo hi) m"
    by (rule for_loop_partial [where I = I, OF run init]) (rule step)
  then show ?thesis by (auto simp: I_def max_def)
qed

lemma lane_loop_sets:
  assumes run: "for_loop lo hi (\<lambda>i r. bindE (src i) (wr r i)) ru = Inr u"
  shows "\<forall>j<length ru. (lo \<le> int j \<and> int j < hi \<longrightarrow> src (int j) = Inr (u ! j)) \<and>
                        (\<not> (lo \<le> int j \<and> int j < hi) \<longrightarrow> u ! j = ru ! j)"
proof -
  define I where "I i s \<longleftrightarrow> length s = length ru \<and>
      (\<forall>j<length ru. (lo \<le> int j \<and> int j < i \<longrightarrow> src (int j) = Inr (s ! j)) \<and>
                      (\<not> (lo \<le> int j \<and> int j < i) \<longrightarrow> s ! j = ru ! j))"
    for i :: int and s :: "'a list"
  have init: "I lo ru" by (auto simp: I_def)
  have step: "I (i + 1) s'"
    if lo: "lo \<le> i" and inv: "I i s" and body: "bindE (src i) (wr s i) = Inr s'"
    for i s s'
  proof -
    have ls: "length s = length ru" using inv by (simp add: I_def)
    from body obtain x where x: "src i = Inr x" "wr s i x = Inr s'"
      by (auto simp: bindE_def split: sum.splits)
    then have eq: "s' = s[nat i := x]" and i: "0 \<le> i" "i < int (length s)"
      by (auto simp: wr_def split: if_splits)
    have "(lo \<le> int j \<and> int j < i + 1 \<longrightarrow> src (int j) = Inr (s' ! j)) \<and>
          (\<not> (lo \<le> int j \<and> int j < i + 1) \<longrightarrow> s' ! j = ru ! j)" if j: "j < length ru" for j
    proof (cases "int j = i")
      case True
      then have "nat i = j" by simp
      then have "s' ! j = x" using eq j ls by simp
      then show ?thesis using True lo x(1) by simp
    next
      case False
      then have "nat i \<noteq> j" using i by auto
      then have "s' ! j = s ! j" using eq by simp
      then show ?thesis using False inv j by (auto simp: I_def)
    qed
    then show ?thesis using eq ls by (simp add: I_def)
  qed
  have "I (max lo hi) u"
    by (rule for_loop_partial [where I = I, OF run init]) (rule step)
  then show ?thesis by (auto simp: I_def max_def)
qed

lemma align_loops_sets:
  assumes len: "length res = nat VLEN"
    and run: "bindE (for_loop 0 (VLEN - count) (\<lambda>i r. bindE (rd v3 (i + count)) (wr r i)) res)
             (for_loop (VLEN - count) VLEN (\<lambda>i r. bindE (rd v2 (i + count - VLEN)) (wr r i))) = Inr u"
  shows "\<forall>i<nat VLEN. (if int i < VLEN - count then rd v3 (int i + count)
                         else rd v2 (int i + count - VLEN)) = Inr (u ! i)"
proof -
  from run obtain r1 where
    r1: "for_loop 0 (VLEN - count) (\<lambda>i r. bindE (rd v3 (i + count)) (wr r i)) res = Inr r1"
    and r2: "for_loop (VLEN - count) VLEN (\<lambda>i r. bindE (rd v2 (i + count - VLEN)) (wr r i)) r1 = Inr u"
    by (auto simp: bindE_def split: sum.splits)
  have l1: "length r1 = nat VLEN" using lane_loop_reads [OF r1 len] by simp
  note a = lane_loop_sets [OF r1, rule_format] and b = lane_loop_sets [OF r2, rule_format]
  show ?thesis
  proof (intro allI impI)
    fix i assume i: "i < nat VLEN"
    show "(if int i < VLEN - count then rd v3 (int i + count)
           else rd v2 (int i + count - VLEN)) = Inr (u ! i)"
    proof (cases "int i < VLEN - count")
      case True
      then have "rd v3 (int i + count) = Inr (r1 ! i)" using a [of i] i len by simp
      moreover have "u ! i = r1 ! i" using b [of i] i l1 True by simp
      ultimately show ?thesis using True by simp
    next
      case False
      then have "rd v2 (int i + count - VLEN) = Inr (u ! i)" using b [of i] i l1 by simp
      then show ?thesis using False by simp
    qed
  qed
qed

lemma align_loops_masked_sets:
  assumes len: "length res = nat VLEN"
    and run: "bindE (for_loop 0 (VLEN - count)
                (\<lambda>i r. bindE (mask_bit k1 i)
                   (\<lambda>b. if b then bindE (rd v3 (i + count)) (wr r i) else Inr r)) res)
             (for_loop (VLEN - count) VLEN
                (\<lambda>i r. bindE (mask_bit k1 i)
                   (\<lambda>b. if b then bindE (rd v2 (i + count - VLEN)) (wr r i) else Inr r))) = Inr m"
  shows "\<forall>i<nat VLEN. bit k1 i \<longrightarrow>
           (if int i < VLEN - count then rd v3 (int i + count)
            else rd v2 (int i + count - VLEN)) = Inr (m ! i)"
proof -
  from run obtain m1 where
    m1: "for_loop 0 (VLEN - count)
           (\<lambda>i r. bindE (mask_bit k1 i)
              (\<lambda>b. if b then bindE (rd v3 (i + count)) (wr r i) else Inr r)) res = Inr m1"
    and m2: "for_loop (VLEN - count) VLEN
           (\<lambda>i r. bindE (mask_bit k1 i)
              (\<lambda>b. if b then bindE (rd v2 (i + count - VLEN)) (wr r i) else Inr r)) m1 = Inr m"
    by (auto simp: bindE_def split: sum.splits)
  have l1: "length m1 = nat VLEN" using masked_loop_frame [OF m1] len by simp
  note a = masked_loop_sets [OF m1, rule_format] and b = masked_loop_sets [OF m2, rule_format]
  show ?thesis
  proof (intro allI impI)
    fix i assume i: "i < nat VLEN" and k: "bit k1 i"
    show "(if int i < VLEN - count then rd v3 (int i + count)
           else rd v2 (int i + count - VLEN)) = Inr (m ! i)"
    proof (cases "int i < VLEN - count")
      case True
      then have "rd v3 (int i + count) = Inr (m1 ! i)" using a [of i] i k len by simp
      moreover have "m ! i = m1 ! i" using b [of i] i l1 True by simp
      ultimately show ?thesis using True by simp
    next
      case False
      then have "rd v2 (int i + count - VLEN) = Inr (m ! i)" using b [of i] i k l1 by simp
      then show ?thesis using False by simp
    qed
  qed
qed

lemma permute_src:
  assumes "length ctrl = nat VLEN" "i < nat VLEN"
  shows "bindE (rd ctrl (int i)) (\<lambda>c. rd v3 (uint c)) = rd v3 (uint (ctrl ! i))"
proof -
  have "i < length ctrl" using assms by simp
  then have "int i < int (length ctrl)" by (simp only: of_nat_less_iff)
  then have "rd ctrl (int i) = Inr (ctrl ! i)" by (simp add: rd_def)
  then show ?thesis by (simp add: bindE_def)
qed

lemma realv_permute_sets:
  assumes len: "length res = nat VLEN" "length ctrl = nat VLEN"
    and run: "realv_permute VLEN res ctrl v3 = Inr u"
  shows "\<forall>i<nat VLEN. rd v3 (uint (ctrl ! i)) = Inr (u ! i)"
proof -
  have a: "(\<lambda>i r. bindE (rd ctrl i) (\<lambda>c. bindE (rd v3 (uint c)) (wr r i)))
         = (\<lambda>i r. bindE (bindE (rd ctrl i) (\<lambda>c. rd v3 (uint c))) (wr r i))"
    by (intro ext) (simp add: bindE_def split: sum.splits)
  from run have r: "for_loop 0 VLEN
      (\<lambda>i r. bindE (bindE (rd ctrl i) (\<lambda>c. rd v3 (uint c))) (wr r i)) res = Inr u"
    by (simp add: realv_permute_def a)
  show ?thesis
  proof (intro allI impI)
    fix i assume i: "i < nat VLEN"
    then have "0 \<le> int i \<and> int i < VLEN" by simp
    then have "bindE (rd ctrl (int i)) (\<lambda>c. rd v3 (uint c)) = Inr (u ! i)"
      using lane_loop_sets [OF r, rule_format, of i] i len(1) by simp
    then show "rd v3 (uint (ctrl ! i)) = Inr (u ! i)"
      using permute_src [OF len(2) i, of v3] by simp
  qed
qed

lemma realv_permute_masked_sets:
  assumes len: "length res = nat VLEN" "length ctrl = nat VLEN"
    and run: "realv_permute_masked VLEN res ctrl v3 k1 = Inr m"
  shows "\<forall>i<nat VLEN. bit k1 i \<longrightarrow> rd v3 (uint (ctrl ! i)) = Inr (m ! i)"
proof -
  have am: "(\<lambda>i r. bindE (mask_bit k1 i)
              (\<lambda>b. if b then bindE (rd ctrl i) (\<lambda>c. bindE (rd v3 (uint c)) (wr r i)) else Inr r))
         = (\<lambda>i r. bindE (mask_bit k1 i)
              (\<lambda>b. if b then bindE (bindE (rd ctrl i) (\<lambda>c. rd v3 (uint c))) (wr r i) else Inr r))"
    by (intro ext) (simp add: bindE_def split: sum.splits)
  from run have r: "for_loop 0 VLEN
      (\<lambda>i r. bindE (mask_bit k1 i)
         (\<lambda>b. if b then bindE (bindE (rd ctrl i) (\<lambda>c. rd v3 (uint c))) (wr r i) else Inr r)) res
      = Inr m"
    by (simp add: realv_permute_masked_def am)
  show ?thesis
  proof (intro allI impI)
    fix i assume i: "i < nat VLEN" and k: "bit k1 i"
    then have "0 \<le> int i \<and> int i < VLEN" by simp
    then have "bindE (rd ctrl (int i)) (\<lambda>c. rd v3 (uint c)) = Inr (m ! i)"
      using masked_loop_sets [OF r, rule_format, of i] i k len(1) by simp
    then show "rd v3 (uint (ctrl ! i)) = Inr (m ! i)"
      using permute_src [OF len(2) i, of v3] by simp
  qed
qed

subsection \<open>The masked lane rotation on the store\<close>

lemma realv_align_masked_distinct:
  assumes "res \<noteq> v2" and "res \<noteq> v3"
  shows "realv_align_masked VLEN st res v2 v3 count k1 =
           bindE (bindE (for_loop 0 (VLEN - count)
                           (\<lambda>i r. bindE (mask_bit k1 i)
                              (\<lambda>b. if b then bindE (rd (st v3) (i + count)) (wr r i) else Inr r))
                           (st res))
                    (for_loop (VLEN - count) VLEN
                           (\<lambda>i r. bindE (mask_bit k1 i)
                              (\<lambda>b. if b then bindE (rd (st v2) (i + count - VLEN)) (wr r i)
                                    else Inr r))))
             (\<lambda>r. Inr (st(res := r)))"
proof -
  let ?S1 = "\<lambda>i s. bindE (mask_bit k1 i)
      (\<lambda>m. if m then bindE (rd_reg s v3 (i + count)) (wr_reg s res i) else Inr s)"
  let ?S2 = "\<lambda>i s. bindE (mask_bit k1 i)
      (\<lambda>m. if m then bindE (rd_reg s v2 (i + count - VLEN)) (wr_reg s res i) else Inr s)"
  let ?L1 = "\<lambda>i r. bindE (mask_bit k1 i)
      (\<lambda>b. if b then bindE (rd (st v3) (i + count)) (wr r i) else Inr r)"
  let ?L2 = "\<lambda>i r. bindE (mask_bit k1 i)
      (\<lambda>b. if b then bindE (rd (st v2) (i + count - VLEN)) (wr r i) else Inr r)"
  have b1: "?S1 i s = bindE (?L1 i (s res)) (\<lambda>r. Inr (s(res := r)))"
    if "\<forall>p. p \<noteq> res \<longrightarrow> s p = st p" for i s
    using that assms by (simp add: rd_reg_def wr_reg_def bindE_def split: sum.splits)
  have b2: "?S2 i s = bindE (?L2 i (s res)) (\<lambda>r. Inr (s(res := r)))"
    if "\<forall>p. p \<noteq> res \<longrightarrow> s p = st p" for i s
    using that assms by (simp add: rd_reg_def wr_reg_def bindE_def split: sum.splits)
  have l1: "for_loop 0 (VLEN - count) ?S1 st =
      bindE (for_loop 0 (VLEN - count) ?L1 (st res)) (\<lambda>r. Inr (st(res := r)))"
    by (rule store_loop_sim [where st = st]) (use b1 in simp_all)
  have l2: "for_loop (VLEN - count) VLEN ?S2 (st(res := r1)) =
      bindE (for_loop (VLEN - count) VLEN ?L2 r1) (\<lambda>r. Inr (st(res := r)))" for r1
  proof -
    have "for_loop (VLEN - count) VLEN ?S2 (st(res := r1)) =
      bindE (for_loop (VLEN - count) VLEN ?L2 ((st(res := r1)) res))
        (\<lambda>r. Inr ((st(res := r1))(res := r)))"
      by (rule store_loop_sim [where st = st]) (use b2 in simp_all)
    then show ?thesis by (simp only: fun_upd_same fun_upd_upd)
  qed
  show ?thesis
  proof (cases "for_loop 0 (VLEN - count) ?L1 (st res)")
    case (Inl e)
    then show ?thesis unfolding realv_align_masked_def l1 by (simp only: bindE_Inl)
  next
    case (Inr r1)
    then show ?thesis unfolding realv_align_masked_def l1 by (simp only: bindE_Inr l2)
  qed
qed

text \<open>
  Whatever objects the arguments are, a masked call that returns has changed no register
  but the destination, and no lane of the destination whose mask bit is 0.
\<close>

lemma masked_store_body_frame:
  assumes "bindE (mask_bit k1 i)
             (\<lambda>m. if m then bindE (src s) (wr_reg s res i) else Inr s) = Inr s'"
  shows "(\<forall>p. p \<noteq> res \<longrightarrow> s' p = s p) \<and> length (s' res) = length (s res) \<and>
         (\<forall>j<length (s res). \<not> bit k1 j \<longrightarrow> s' res ! j = s res ! j)"
proof -
  from assms obtain b where b: "mask_bit k1 i = Inr b"
    and s': "(if b then bindE (src s) (wr_reg s res i) else Inr s) = Inr s'"
    by (auto simp: bindE_def split: sum.splits)
  from b have i: "0 \<le> i" "i < 32" by (auto simp: mask_bit_def split: if_splits)
  with b have bb: "b = bit k1 (nat i)" by (simp add: mask_bit_eq)
  show ?thesis
  proof (cases b)
    case False
    with s' show ?thesis by simp
  next
    case True
    with s' obtain x where "wr_reg s res i x = Inr s'"
      by (auto simp: bindE_def split: sum.splits)
    from wr_reg_frame [OF this]
    have w: "\<forall>p. p \<noteq> res \<longrightarrow> s' p = s p" "length (s' res) = length (s res)"
      "\<forall>j. j \<noteq> nat i \<longrightarrow> s' res ! j = s res ! j"
      by simp_all
    have "j \<noteq> nat i" if "\<not> bit k1 j" for j using that True bb by auto
    with w show ?thesis by simp
  qed
qed

lemma realv_align_masked_frame:
  assumes "realv_align_masked VLEN st res v2 v3 count k1 = Inr sm"
  shows "(\<forall>p. p \<noteq> res \<longrightarrow> sm p = st p) \<and> length (sm res) = length (st res) \<and>
         (\<forall>j<length (st res). \<not> bit k1 j \<longrightarrow> sm res ! j = st res ! j)"
proof -
  let ?S1 = "\<lambda>i st. bindE (mask_bit k1 i)
      (\<lambda>m. if m then bindE (rd_reg st v3 (i + count)) (wr_reg st res i) else Inr st)"
  let ?S2 = "\<lambda>i st. bindE (mask_bit k1 i)
      (\<lambda>m. if m then bindE (rd_reg st v2 (i + count - VLEN)) (wr_reg st res i) else Inr st)"
  from assms obtain s1 where
    s1: "for_loop 0 (VLEN - count) ?S1 st = Inr s1"
    and s2: "for_loop (VLEN - count) VLEN ?S2 s1 = Inr sm"
    unfolding realv_align_masked_def by (cases "for_loop 0 (VLEN - count) ?S1 st")
      (simp_all add: bindE_Inl bindE_Inr)
  have a: "(\<forall>p. p \<noteq> res \<longrightarrow> s1 p = st p) \<and> length (s1 res) = length (st res) \<and>
         (\<forall>j<length (st res). \<not> bit k1 j \<longrightarrow> s1 res ! j = st res ! j)"
    by (rule store_loop_frame [OF s1]) (rule masked_store_body_frame)
  have b: "(\<forall>p. p \<noteq> res \<longrightarrow> sm p = s1 p) \<and> length (sm res) = length (s1 res) \<and>
         (\<forall>j<length (s1 res). \<not> bit k1 j \<longrightarrow> sm res ! j = s1 res ! j)"
    by (rule store_loop_frame [OF s2]) (rule masked_store_body_frame)
  from a b show ?thesis by simp
qed

text \<open>
  With a destination of its own, every lane whose mask bit is 1 has the value that the
  unmasked assignment reads for it, and wherever the unmasked call returns the masked one
  returns too, with the lanes of the unmasked result where the mask bit is 1 and the prior
  lanes where it is 0.
\<close>

lemma realv_align_distinct_sets:
  assumes "res \<noteq> v2" and "res \<noteq> v3" and "length (st res) = nat VLEN"
    and "realv_align VLEN st res v2 v3 count = Inr su"
  shows "\<forall>i<nat VLEN. (if int i < VLEN - count then rd (st v3) (int i + count)
                         else rd (st v2) (int i + count - VLEN)) = Inr (su res ! i)"
proof -
  from bindE_store [OF assms(4) [unfolded realv_align_distinct [OF assms(1,2)]]]
  obtain u where u: "bindE (for_loop 0 (VLEN - count)
                           (\<lambda>i r. bindE (rd (st v3) (i + count)) (wr r i)) (st res))
                    (for_loop (VLEN - count) VLEN
                           (\<lambda>i r. bindE (rd (st v2) (i + count - VLEN)) (wr r i))) = Inr u"
    and su: "su = st(res := u)" by blast
  from align_loops_sets [OF assms(3) u] su show ?thesis by simp
qed

lemma realv_align_masked_distinct_sets:
  assumes "res \<noteq> v2" and "res \<noteq> v3" and "length (st res) = nat VLEN"
    and "realv_align_masked VLEN st res v2 v3 count k1 = Inr sm"
  shows "\<forall>i<nat VLEN. bit k1 i \<longrightarrow>
           (if int i < VLEN - count then rd (st v3) (int i + count)
            else rd (st v2) (int i + count - VLEN)) = Inr (sm res ! i)"
proof -
  from bindE_store [OF assms(4) [unfolded realv_align_masked_distinct [OF assms(1,2)]]]
  obtain m where m: "bindE (for_loop 0 (VLEN - count)
                           (\<lambda>i r. bindE (mask_bit k1 i)
                              (\<lambda>b. if b then bindE (rd (st v3) (i + count)) (wr r i) else Inr r))
                           (st res))
                    (for_loop (VLEN - count) VLEN
                           (\<lambda>i r. bindE (mask_bit k1 i)
                              (\<lambda>b. if b then bindE (rd (st v2) (i + count - VLEN)) (wr r i)
                                    else Inr r))) = Inr m"
    and sm: "sm = st(res := m)" by blast
  from align_loops_masked_sets [OF assms(3) m] sm show ?thesis by simp
qed

lemma realv_align_masked_distinct_lanes:
  assumes "res \<noteq> v2" and "res \<noteq> v3" and "VLEN \<le> 32" and "length (st res) = nat VLEN"
    and "realv_align VLEN st res v2 v3 count = Inr su"
  shows "\<exists>m. realv_align_masked VLEN st res v2 v3 count k1 = Inr (st(res := m)) \<and>
           length m = nat VLEN \<and>
           (\<forall>i<nat VLEN. m ! i = (if bit k1 i then su res ! i else st res ! i))"
proof -
  from bindE_store [OF assms(5) [unfolded realv_align_distinct [OF assms(1,2)]]]
  obtain u where u: "bindE (for_loop 0 (VLEN - count)
                           (\<lambda>i r. bindE (rd (st v3) (i + count)) (wr r i)) (st res))
                    (for_loop (VLEN - count) VLEN
                           (\<lambda>i r. bindE (rd (st v2) (i + count - VLEN)) (wr r i))) = Inr u"
    and su: "su = st(res := u)" by blast
  from align_loops_masked_lanes [OF assms(3,4) u, of k1] obtain m where
    m: "bindE (for_loop 0 (VLEN - count)
                (\<lambda>i r. bindE (mask_bit k1 i)
                   (\<lambda>b. if b then bindE (rd (st v3) (i + count)) (wr r i) else Inr r)) (st res))
             (for_loop (VLEN - count) VLEN
                (\<lambda>i r. bindE (mask_bit k1 i)
                   (\<lambda>b. if b then bindE (rd (st v2) (i + count - VLEN)) (wr r i) else Inr r)))
          = Inr m"
    and p: "length m = nat VLEN" "\<forall>i<nat VLEN. m ! i = (if bit k1 i then u ! i else st res ! i)"
    by blast
  have "realv_align_masked VLEN st res v2 v3 count k1 = Inr (st(res := m))"
    by (simp only: realv_align_masked_distinct [OF assms(1,2)] m bindE_Inr)
  moreover have "\<forall>i<nat VLEN. m ! i = (if bit k1 i then su res ! i else st res ! i)"
    using p(2) su by simp
  ultimately show ?thesis using p(1) by blast
qed

text \<open>
  The masked permutation: whenever it returns, every lane whose mask bit is 0 has its prior
  value and every lane whose mask bit is 1 has the value \<open>v3[ctrl.ci[i]]\<close> of the unmasked
  assignment; and wherever the unmasked permutation returns, the masked one returns too.
  The mask is an \<open>unsigned int\<close>, so the registers have at most 32 lanes.
\<close>

lemma masked_permute_frame:
  assumes "VLEN \<le> 32" and "length res = nat VLEN" and "length ctrl = nat VLEN"
  shows "(\<forall>m. realv_permute_masked VLEN res ctrl v3 k1 = Inr m \<longrightarrow>
            (\<forall>i<nat VLEN.
               if bit k1 i then rd v3 (uint (ctrl ! i)) = Inr (m ! i) else m ! i = res ! i)) \<and>
         (\<forall>u. realv_permute VLEN res ctrl v3 = Inr u \<longrightarrow>
            (\<forall>i<nat VLEN. rd v3 (uint (ctrl ! i)) = Inr (u ! i)) \<and>
            (\<exists>m. realv_permute_masked VLEN res ctrl v3 k1 = Inr m \<and> length m = nat VLEN \<and>
                 (\<forall>i<nat VLEN. m ! i = (if bit k1 i then u ! i else res ! i))))"
proof (intro conjI allI impI)
  fix m i assume m: "realv_permute_masked VLEN res ctrl v3 k1 = Inr m" and i: "i < nat VLEN"
  show "if bit k1 i then rd v3 (uint (ctrl ! i)) = Inr (m ! i) else m ! i = res ! i"
    using realv_permute_masked_sets [OF assms(2,3) m] realv_permute_masked_frame [OF m] i assms(2)
    by simp
next
  fix u i assume "realv_permute VLEN res ctrl v3 = Inr u" "i < nat VLEN"
  then show "rd v3 (uint (ctrl ! i)) = Inr (u ! i)"
    using realv_permute_sets [OF assms(2,3)] by blast
next
  fix u assume "realv_permute VLEN res ctrl v3 = Inr u"
  then show "\<exists>m. realv_permute_masked VLEN res ctrl v3 k1 = Inr m \<and> length m = nat VLEN \<and>
                 (\<forall>i<nat VLEN. m ! i = (if bit k1 i then u ! i else res ! i))"
    by (rule realv_permute_masked_lanes [OF assms(1,2)])
qed

text \<open>The bits of the masks \<open>0b1001\<close> and \<open>0b1000\<close>.\<close>

lemma mask_bits_9:
  "mask_bit 9 0 = Inr True" "mask_bit 9 1 = Inr False" "mask_bit 9 2 = Inr False"
  "mask_bit 9 3 = Inr True"
  by (simp_all add: mask_bit_eq numeral_3_eq_3 numeral_2_eq_2)

lemma mask_bits_8:
  "mask_bit 8 0 = Inr False" "mask_bit 8 1 = Inr False" "mask_bit 8 2 = Inr False"
  "mask_bit 8 3 = Inr True"
  by (simp_all add: mask_bit_eq numeral_3_eq_3 numeral_2_eq_2)

text \<open>
  Claim C5 (the masked \<open>realv_align\<close> and the masked \<open>realv_permute\<close> leave every lane of
  \<open>res\<close> whose mask bit \<open>(k1 >> i) & 1\<close> is 0 at its prior value and set every lane whose mask
  bit is 1 to the value that the unmasked operation produces in that lane) fails on the
  code of the masked \<open>realv_align\<close> when the destination is the register passed as \<open>v2\<close>; it
  holds for the masked \<open>realv_permute\<close>, for the lanes whose mask bit is 0, and for a
  destination of its own (the lemmas above).  With \<open>VLEN = 4\<close>, \<open>v3 = {10, 20, 30, 40}\<close> at
  address 0, \<open>v2 = {50, 60, 70, 80}\<close> at address 1 and \<open>count = 1\<close>, the call
  \<open>realv_align(v2, v2, v3, 1, k1)\<close> with \<open>k1 = 0b1001\<close> leaves \<open>{20, 60, 70, 20}\<close>: lane 3, whose
  mask bit is 1, is 20 and not the lane 50 of the window \<open>{20, 30, 40, 50}\<close>, because lane 0
  of \<open>v2\<close> was overwritten before it was read.  With \<open>k1 = 0b1000\<close> the call leaves
  \<open>{50, 60, 70, 50}\<close>: lane 3 is 50, while the unmasked call on the same arguments leaves
  \<open>{20, 30, 40, 20}\<close>, lane 3 being 20.  So the selected lane has neither the lane of the
  window for every mask nor the lane of the unmasked call for every mask.
\<close>

theorem realv_align_masked_aliased_destination:
  "realv_align_masked 4 ((\<lambda>p. [])(0 := [10, 20, 30, 40], 1 := [50, 60, 70, 80 :: 32 word]))
       1 1 0 1 9
     = Inr ((\<lambda>p. [])(0 := [10, 20, 30, 40], 1 := [20, 60, 70, 20])) \<and>
   realv_align_masked 4 ((\<lambda>p. [])(0 := [10, 20, 30, 40], 1 := [50, 60, 70, 80 :: 32 word]))
       1 1 0 1 8
     = Inr ((\<lambda>p. [])(0 := [10, 20, 30, 40], 1 := [50, 60, 70, 50])) \<and>
   realv_align 4 ((\<lambda>p. [])(0 := [10, 20, 30, 40], 1 := [50, 60, 70, 80 :: 32 word])) 1 1 0 1
     = Inr ((\<lambda>p. [])(0 := [10, 20, 30, 40], 1 := [20, 30, 40, 20])) \<and>
   take 4 (drop 1 ([10, 20, 30, 40] @ [50, 60, 70, 80 :: 32 word])) = [20, 30, 40, 50]"
  by (simp add: realv_align_def realv_align_masked_def for_loop.simps bindE_def rd_def wr_def
      rd_reg_def wr_reg_def mask_bits_9 mask_bits_8)

section \<open>Comparison operators\<close>



lemma equal_from_all:
  assumes "length a = nat VLEN" "length b = nat VLEN" "0 \<le> j"
  shows "equal_from VLEN a b j =
     Inr (\<forall>k. j \<le> k \<and> k < VLEN \<longrightarrow> fl_eq (a ! nat k) (b ! nat k))"
  using assms
proof (induction VLEN a b j rule: equal_from.induct)
  case (1 VLEN r rhs j)
  show ?case
  proof (cases "j < VLEN")
    case False
    then show ?thesis by (subst equal_from.simps) auto
  next
    case True
    then have rd: "rd r j = Inr (r ! nat j)" "rd rhs j = Inr (rhs ! nat j)"
      using "1.prems" by (simp_all add: rd_def)
    show ?thesis
    proof (cases "fl_ne (r ! nat j) (rhs ! nat j)")
      case ne: True
      then have "\<not> (\<forall>k. j \<le> k \<and> k < VLEN \<longrightarrow> fl_eq (r ! nat k) (rhs ! nat k))"
        using True by (auto simp: fl_ne_def)
      then show ?thesis using True rd ne by (subst equal_from.simps) (simp add: bindE_def)
    next
      case eq: False
      have IH: "equal_from VLEN r rhs (j + 1) =
          Inr (\<forall>k. j + 1 \<le> k \<and> k < VLEN \<longrightarrow> fl_eq (r ! nat k) (rhs ! nat k))"
        using "1.IH" [OF True eq] "1.prems" by simp
      have "(\<forall>k. j \<le> k \<and> k < VLEN \<longrightarrow> fl_eq (r ! nat k) (rhs ! nat k)) \<longleftrightarrow>
            (\<forall>k. j + 1 \<le> k \<and> k < VLEN \<longrightarrow> fl_eq (r ! nat k) (rhs ! nat k))"
      proof
        assume "\<forall>k. j \<le> k \<and> k < VLEN \<longrightarrow> fl_eq (r ! nat k) (rhs ! nat k)"
        then show "\<forall>k. j + 1 \<le> k \<and> k < VLEN \<longrightarrow> fl_eq (r ! nat k) (rhs ! nat k)" by auto
      next
        assume a: "\<forall>k. j + 1 \<le> k \<and> k < VLEN \<longrightarrow> fl_eq (r ! nat k) (rhs ! nat k)"
        show "\<forall>k. j \<le> k \<and> k < VLEN \<longrightarrow> fl_eq (r ! nat k) (rhs ! nat k)"
        proof (intro allI impI)
          fix k assume k: "j \<le> k \<and> k < VLEN"
          show "fl_eq (r ! nat k) (rhs ! nat k)"
          proof (cases "k = j")
            case True
            then show ?thesis using eq by (simp add: fl_ne_def)
          next
            case False
            then show ?thesis using a k by auto
          qed
        qed
      qed
      then show ?thesis using True rd eq IH
        by (subst equal_from.simps) (simp add: bindE_def)
    qed
  qed
qed


lemma all_lanes_nat:
  "(\<forall>k. 0 \<le> k \<and> k < VLEN \<longrightarrow> Q (nat k)) \<longleftrightarrow> (\<forall>j<nat VLEN. Q j)"
proof
  assume a: "\<forall>k. 0 \<le> k \<and> k < VLEN \<longrightarrow> Q (nat k)"
  show "\<forall>j<nat VLEN. Q j"
  proof (intro allI impI)
    fix j assume "j < nat VLEN"
    then show "Q j" using a [rule_format, of "int j"] by simp
  qed
next
  assume "\<forall>j<nat VLEN. Q j"
  then show "\<forall>k. 0 \<le> k \<and> k < VLEN \<longrightarrow> Q (nat k)" by simp
qed



lemma realv_equal_all:
  assumes "length a = nat VLEN" "length b = nat VLEN"
  shows "realv_equal VLEN a b = Inr (\<forall>j<nat VLEN. fl_eq (a ! j) (b ! j))"
  unfolding realv_equal_def equal_from_all [OF assms order_refl]
  by (simp only: all_lanes_nat [where Q = "\<lambda>j. fl_eq (a ! j) (b ! j)"])

lemmas fl_defs = fl_lt_def fl_gt_def fl_eq_def fl_ne_def fl_isnan_def fl_val_def fl_mag_def
  fl_sign_def fl_inf_mag_def fl_frac_bits_def

text \<open>
  Claim C4, as amended.  \<open>realv::operator==\<close> returns true if and only if every lane of
  \<open>a\<close> compares equal to the corresponding lane of \<open>b\<close> under the floating-point \<open>==\<close> of C.
\<close>

theorem realv_equal_ieee:
  assumes "length a = nat VLEN" and "length b = nat VLEN"
  shows "realv_equal VLEN a b = Inr (\<forall>j<nat VLEN. fl_eq (a ! j) (b ! j))"
  by (rule realv_equal_all [OF assms])

theorem realv_equal_ieee_witness:
  "realv_equal 2 [0x3F800000, 0x40000000] [0x3F800000, 0x40000000 :: 32 word] = Inr True"
proof -
  have "fl_eq ([0x3F800000, 0x40000000 :: 32 word] ! j) ([0x3F800000, 0x40000000] ! j)"
    if "j < nat 2" for j
  proof -
    from that have "j = 0 \<or> j = 1" by auto
    then show ?thesis by (auto simp: fl_defs)
  qed
  then show ?thesis
    using realv_equal_ieee [of "[0x3F800000, 0x40000000 :: 32 word]" 2 "[0x3F800000, 0x40000000]"]
    by simp
qed

text \<open>
  The comparison is not one of bit patterns: \<open>+0.0\<close> and \<open>-0.0\<close> differ in the sign bit
  and compare equal, and a register with a NaN lane is not equal to itself.
\<close>

theorem realv_equal_bits_counterexample:
  "realv_equal 1 [0x00000000] [0x80000000 :: 32 word] = Inr True \<and>
   [0x00000000] \<noteq> [0x80000000 :: 32 word] \<and>
   realv_equal 1 [0x7FC00000 :: 32 word] [0x7FC00000] = Inr False"
  by (simp add: realv_equal_def equal_from.simps bindE_def rd_def fl_defs)




section \<open>Two-source permutation\<close>

lemma idx_le_mask: "uint ((c :: 'a::len word) AND CTRL_IDX_MASK) \<le> uint (CTRL_IDX_MASK :: 'a word)"
  using word_and_le1 [of c "CTRL_IDX_MASK :: 'a word"] by (simp add: word_le_def)

text \<open>
  Claim C10, as amended.  Each result lane \<open>i\<close> of \<open>realv_permute2\<close> is
  \<open>a[ctrl.ci[i] & CTRL_IDX_MASK]\<close> when bit \<open>CTRL_SEL_BIT\<close> of \<open>ctrl.ci[i]\<close> is clear and
  \<open>b[ctrl.ci[i] & CTRL_IDX_MASK]\<close> when it is set, and the operation returns, whenever the
  masked indices are lanes of the register: for every control register when
  \<open>CTRL_IDX_MASK < VLEN\<close> (as in a build with \<open>VLEN = V512_ELEMS\<close>), and otherwise for the
  control registers whose masked indices are below \<open>VLEN\<close>.
\<close>

theorem realv_permute2_lanes:
  fixes ctrl :: "'a::len word realv"
  assumes "length res = nat VLEN" and "length ctrl = nat VLEN"
    and "length a = nat VLEN" and "length b = nat VLEN"
    and "uint (CTRL_IDX_MASK :: 'a word) < VLEN \<or>
         (\<forall>i<nat VLEN. uint (ctrl ! i AND CTRL_IDX_MASK) < VLEN)"
  shows "\<exists>r. realv_permute2 VLEN res ctrl a b = Inr r \<and> length r = nat VLEN \<and>
           (\<forall>i<nat VLEN. unat (ctrl ! i AND CTRL_IDX_MASK) < nat VLEN \<and>
              r ! i = (if ctrl ! i AND CTRL_SEL_BIT = 0
                       then a ! unat (ctrl ! i AND CTRL_IDX_MASK)
                       else b ! unat (ctrl ! i AND CTRL_IDX_MASK)))"
proof -
  let ?n = "nat VLEN"
  let ?idx = "\<lambda>i. uint (ctrl ! nat i AND CTRL_IDX_MASK)"
  let ?v = "\<lambda>i. if ctrl ! nat i AND CTRL_SEL_BIT = 0 then a ! nat (?idx i) else b ! nat (?idx i)"
  let ?body = "\<lambda>i res. bindE (rd ctrl i)
           (\<lambda>c. let sel = uint (c AND CTRL_SEL_BIT);
                    idx = uint (c AND CTRL_IDX_MASK)
                in bindE (if sel \<noteq> 0 then rd b idx else rd a idx) (wr res i))"
  have idx: "0 \<le> ?idx i \<and> ?idx i < VLEN" if "0 \<le> i" "i < VLEN" for i
  proof -
    from assms(5) show ?thesis
    proof
      assume "uint (CTRL_IDX_MASK :: 'a word) < VLEN"
      then show ?thesis using idx_le_mask [of "ctrl ! nat i"] by simp
    next
      assume "\<forall>i<nat VLEN. uint (ctrl ! i AND CTRL_IDX_MASK) < VLEN"
      then show ?thesis using that by simp
    qed
  qed
  have body: "?body i r = Inr (case Some (?v i) of None \<Rightarrow> r | Some x \<Rightarrow> r[nat i := x])"
    if "0 \<le> i" "i < VLEN" "length r = ?n" for i r
    using idx [OF that(1,2)] that assms(1-4)
    by (simp add: bindE_def rd_def wr_def Let_def uint_0_iff)
  have "\<exists>r. for_loop 0 VLEN ?body res = Inr r \<and> length r = ?n \<and>
          (\<forall>j<?n. r ! j = (if 0 \<le> int j \<and> int j < VLEN
                           then (case Some (?v (int j)) of None \<Rightarrow> res ! j | Some x \<Rightarrow> x)
                           else res ! j))"
  proof (rule lane_loop_total [where ob = "\<lambda>i. Some (?v i)"])
    show "(0::int) \<le> 0" by simp
    show "VLEN \<le> int ?n" by simp
    show "length res = ?n" by (rule assms(1))
  qed (rule body)
  then obtain r where r: "for_loop 0 VLEN ?body res = Inr r" "length r = ?n"
    "\<And>j. j < ?n \<Longrightarrow> r ! j = ?v (int j)"
    by fastforce
  have "realv_permute2 VLEN res ctrl a b = Inr r"
    using r(1) by (simp add: realv_permute2_def)
  moreover have "unat (ctrl ! i AND CTRL_IDX_MASK) < nat VLEN \<and>
              r ! i = (if ctrl ! i AND CTRL_SEL_BIT = 0
                       then a ! unat (ctrl ! i AND CTRL_IDX_MASK)
                       else b ! unat (ctrl ! i AND CTRL_IDX_MASK))" if "i < ?n" for i
  proof -
    have "uint (ctrl ! i AND CTRL_IDX_MASK) < VLEN" using idx [of "int i"] that by simp
    then have "unat (ctrl ! i AND CTRL_IDX_MASK) < nat VLEN"
      by (simp add: zless_nat_eq_int_zless)
    then show ?thesis using r(3) [OF that] by simp
  qed
  ultimately show ?thesis using r(2) by blast
qed

text \<open>
  The mask is the one of a 512-bit register, not \<open>VLEN - 1\<close>: in the build with \<open>VLEN = 1\<close>,
  which the header emulates, the control value 1 reads lane 1 of a register of one lane.
\<close>

theorem realv_permute2_small_vlen_counterexample:
  "realv_permute2 1 [0] [1] [7] [9 :: 32 word] = Inl (OutOfBounds 1)"
  by (simp add: realv_permute2_def for_loop.simps bindE_def rd_def wr_def CTRL_IDX_MASK_def
      CTRL_SEL_BIT_def)

theorem realv_permute2_lanes_witness:
  "\<exists>r. realv_permute2 4 [0, 0, 0, 0] [3, 0x12, 0x21, 0x10] [10, 20, 30, 40] [50, 60, 70, 80 :: 32 word]
        = Inr r \<and> r ! 0 = 40 \<and> r ! 1 = 70 \<and> r ! 2 = 20 \<and> r ! 3 = 50"
proof -
  have m: "(3 :: 32 word) AND CTRL_IDX_MASK = 3" "(0x12 :: 32 word) AND CTRL_IDX_MASK = 2"
    "(0x21 :: 32 word) AND CTRL_IDX_MASK = 1" "(0x10 :: 32 word) AND CTRL_IDX_MASK = 0"
    "(3 :: 32 word) AND CTRL_SEL_BIT = 0" "(0x12 :: 32 word) AND CTRL_SEL_BIT = 0x10"
    "(0x21 :: 32 word) AND CTRL_SEL_BIT = 0" "(0x10 :: 32 word) AND CTRL_SEL_BIT = 0x10"
    by (simp_all add: CTRL_IDX_MASK_def CTRL_SEL_BIT_def)
  have h: "\<forall>i<nat 4. uint ([3, 0x12, 0x21, 0x10 :: 32 word] ! i AND CTRL_IDX_MASK) < 4"
  proof (intro allI impI)
    fix i :: nat assume "i < nat 4"
    then have "i = 0 \<or> i = 1 \<or> i = 2 \<or> i = 3" by auto
    then show "uint ([3, 0x12, 0x21, 0x10 :: 32 word] ! i AND CTRL_IDX_MASK) < 4"
      using m by auto
  qed
  from realv_permute2_lanes [of "[0, 0, 0, 0]" 4 "[3, 0x12, 0x21, 0x10]" "[10, 20, 30, 40]"
      "[50, 60, 70, 80 :: 32 word]"] h
  obtain r where r: "realv_permute2 4 [0, 0, 0, 0] [3, 0x12, 0x21, 0x10] [10, 20, 30, 40]
        [50, 60, 70, 80 :: 32 word] = Inr r"
    and l: "\<And>i. i < nat 4 \<Longrightarrow> r ! i = (if [3, 0x12, 0x21, 0x10 :: 32 word] ! i AND CTRL_SEL_BIT = 0
                       then [10, 20, 30, 40] ! unat ([3, 0x12, 0x21, 0x10 :: 32 word] ! i AND CTRL_IDX_MASK)
                       else [50, 60, 70, 80] ! unat ([3, 0x12, 0x21, 0x10 :: 32 word] ! i AND CTRL_IDX_MASK))"
    by auto
  have "r ! 0 = 40 \<and> r ! 1 = 70 \<and> r ! 2 = 20 \<and> r ! 3 = 50"
    using l [of 0] l [of 1] l [of 2] l [of 3] m by simp
  with r show ?thesis by blast
qed

section \<open>The visitors\<close>

lemma fold_FpOpCounter:
  assumes "\<And>e n. e \<in> set es \<Longrightarrow> FpOpCounterVisitor_accept e n = n + word_of_int (spec_op_count e)"
  shows "fold FpOpCounterVisitor_accept es n = n + word_of_int (sum_list (map spec_op_count es))"
  using assms by (induction es arbitrary: n) (simp_all add: algebra_simps)

lemma FpOpCounter_adds: "FpOpCounterVisitor_accept e n = n + word_of_int (spec_op_count e)"
proof (induction e arbitrary: n)
  case (CommutativeExpr opr ops)
  have "fold FpOpCounterVisitor_accept ops m = m + word_of_int (sum_list (map spec_op_count ops))" for m
    by (rule fold_FpOpCounter) (rule CommutativeExpr.IH)
  then show ?case by (simp add: algebra_simps)
qed (simp_all add: algebra_simps)

lemma unary_binary_count: "unary_binary_only e \<Longrightarrow> spec_op_count e = int (num_nodes e)"
  by (induction e) simp_all

lemma fold_PointCollector:
  assumes "\<And>e s. e \<in> set es \<Longrightarrow> ExprVisitor_accept PointCollector e s = s @ points_of e"
  shows "fold (ExprVisitor_accept PointCollector) es s = s @ concat (map points_of es)"
  using assms by (induction es arbitrary: s) simp_all

lemma PointCollector_points: "ExprVisitor_accept PointCollector e s = s @ points_of e"
proof (induction e arbitrary: s)
  case (CommutativeExpr opr ops)
  have "fold (ExprVisitor_accept PointCollector) ops s = s @ concat (map points_of ops)"
    by (rule fold_PointCollector) (rule CommutativeExpr.IH)
  then show ?case by simp
next
  case (GridPointExpr gp)
  show ?case by (simp add: PointCollector_def)
next
  case (ConstExpr c)
  show ?case by (simp add: PointCollector_def)
next
  case (CodeExpr c)
  show ?case by (simp add: PointCollector_def)
next
  case (EqualsExpr lhs rhs)
  have "ExprVisitor_accept PointCollector (GridPointExpr lhs) s = s @ [lhs]"
    by (simp add: PointCollector_def)
  then show ?case using EqualsExpr by simp
qed simp_all

text \<open>
  Claim C2.  The op-counting visitor adds 1 for each occurrence of a unary node, 1 for each
  occurrence of a binary node, \<open>k - 1\<close> for each occurrence of a commutative node with \<open>k\<close>
  operands and 0 for each leaf, in the 32-bit arithmetic of \<open>_numOps\<close>; \<open>getNumOps\<close> is that
  count whenever it is an \<open>int\<close>.  For an expression of \<open>n\<close> unary and binary nodes the count
  is \<open>n\<close>, and a subexpression used twice is counted twice.
\<close>

theorem FpOpCounterVisitor_counts:
  "FpOpCounterVisitor_accept e numOps = numOps + word_of_int (spec_op_count e) \<and>
   (- (2 ^ 31) \<le> spec_op_count e \<and> spec_op_count e < 2 ^ 31 \<longrightarrow>
      getNumOps e = spec_op_count e) \<and>
   (unary_binary_only e \<longrightarrow> spec_op_count e = int (num_nodes e)) \<and>
   (unary_binary_only e \<and> num_nodes e < 2 ^ 31 \<longrightarrow> getNumOps e = int (num_nodes e)) \<and>
   spec_op_count (BinaryExpr e opr e) = 1 + 2 * spec_op_count e"
proof -
  have a: "FpOpCounterVisitor_accept e n = n + word_of_int (spec_op_count e)" for n
    by (rule FpOpCounter_adds)
  have b: "getNumOps e = spec_op_count e"
    if "- (2 ^ 31) \<le> spec_op_count e \<and> spec_op_count e < 2 ^ 31"
  proof -
    have "sint (word_of_int (spec_op_count e) :: 32 word) = spec_op_count e"
      using that by (simp add: sint_sbintrunc' signed_take_bit_int_eq_self)
    then show ?thesis by (simp add: getNumOps_def a)
  qed
  have c: "spec_op_count e = int (num_nodes e)" if "unary_binary_only e"
    using that by (rule unary_binary_count)
  have d: "getNumOps e = int (num_nodes e)" if "unary_binary_only e \<and> num_nodes e < 2 ^ 31"
  proof -
    have "spec_op_count e = int (num_nodes e)" using that c by simp
    moreover have "int (num_nodes e) < int (2 ^ 31)" using that by (simp only: of_nat_less_iff)
    then have "int (num_nodes e) < 2 ^ 31" by simp
    moreover have "(0::int) \<le> int (num_nodes e)" by simp
    ultimately show ?thesis using b by simp
  qed
  from a b c d show ?thesis by simp
qed

theorem FpOpCounterVisitor_counts_witness:
  "getNumOps (BinaryExpr (UnaryExpr ''-'' (GridPointExpr \<lparr>gridName = ''u'', args = [(''x'', Offset 1)]\<rparr>))
       ''/'' (CommutativeExpr ''+'' [ConstExpr 1, CodeExpr ''c'', ConstExpr 2])) = 4 \<and>
   getNumOps (BinaryExpr (UnaryExpr ''-'' (ConstExpr 1)) ''-'' (UnaryExpr ''-'' (ConstExpr 1))) = 3"
proof -
  let ?e = "BinaryExpr (UnaryExpr ''-'' (GridPointExpr \<lparr>gridName = ''u'', args = [(''x'', Offset 1)]\<rparr>))
       ''/'' (CommutativeExpr ''+'' [ConstExpr 1, CodeExpr ''c'', ConstExpr 2])"
  let ?f = "BinaryExpr (UnaryExpr ''-'' (ConstExpr 1)) ''-'' (UnaryExpr ''-'' (ConstExpr 1))"
  have he: "- (2 ^ 31) \<le> spec_op_count ?e \<and> spec_op_count ?e < 2 ^ 31" by simp
  have hf: "unary_binary_only ?f \<and> num_nodes ?f < 2 ^ 31" by simp
  note te = FpOpCounterVisitor_counts [of ?e 0 "''/''"]
  note tf = FpOpCounterVisitor_counts [of ?f 0 "''/''"]
  have 1: "getNumOps ?e = spec_op_count ?e"
    by (rule te [THEN conjunct2, THEN conjunct1, THEN mp, OF he])
  have 2: "getNumOps ?f = int (num_nodes ?f)"
    by (rule tf [THEN conjunct2, THEN conjunct2, THEN conjunct2, THEN conjunct1, THEN mp, OF hf])
  have "spec_op_count ?e = 4" "int (num_nodes ?f) = 3" by simp_all
  with 1 2 show ?thesis by simp
qed

text \<open>
  Claim C3, as amended.  The default case of \<open>EqualsExpr\<close> visits the left-hand grid point
  and then the right-hand side: a visitor that inherits it is called on the left-hand point
  before any point of the right-hand side.
\<close>

theorem default_visit_EqualsExpr:
  "ExprVisitor_accept v (EqualsExpr lhs rhs) s =
     ExprVisitor_accept v rhs (visit_GridPoint v lhs s) \<and>
   FpOpCounterVisitor_accept (EqualsExpr lhs rhs) numOps =
     FpOpCounterVisitor_accept rhs (FpOpCounterVisitor_accept (GridPointExpr lhs) numOps) \<and>
   ExprVisitor_accept PointCollector (EqualsExpr lhs rhs) [] = lhs # points_of rhs"
  by (simp add: PointCollector_points) (simp add: PointCollector_def)

text \<open>An equation whose right-hand side reads no grid point: the only point the collecting
  visitor is called on is the one on the left.\<close>

theorem default_visit_EqualsExpr_counterexample:
  "ExprVisitor_accept PointCollector
     (EqualsExpr \<lparr>gridName = ''u'', args = [(''t'', Offset 1), (''x'', Offset 0)]\<rparr> (ConstExpr 0)) []
   = [\<lparr>gridName = ''u'', args = [(''t'', Offset 1), (''x'', Offset 0)]\<rparr>] \<and>
   ExprVisitor_accept PointCollector (ConstExpr 0) [] = []"
  by (simp add: PointCollector_def)

section \<open>The finite-difference coefficients\<close>

lemma fd_coeff_loop_m1_first:
  assumes "0 \<le> order" "1 \<le> n" "n < num_points" "0 \<le> v" "v < num_points"
    "length points = nat num_points"
  shows "fd_coeff_loop_m1 ops x_0 order points num_points n v c3 d
           = Inl (TableBounds (- 1) (n - 1) v)"
proof -
  have "0 < min n order + 1" using assms by simp
  moreover have "rd points n = Inr (points ! nat n)" using assms by (simp add: rd_def)
  moreover have "d_rd order num_points d 0 (n - 1) v = Inr (d (0, n - 1, v))"
    using assms by (simp add: d_rd_def)
  moreover have "d_rd order num_points d (0 - 1) (n - 1) v = Inl (TableBounds (- 1) (n - 1) v)"
    by (simp add: d_rd_def)
  ultimately show ?thesis
    unfolding fd_coeff_loop_m1_def
    by (subst for_loop.simps) (simp add: bindE_def)
qed

lemma fd_coeff_negative_index_general:
  assumes "2 \<le> num_points" and "0 \<le> order" and "length points = nat num_points"
  shows "fd_coeff ops coeff eval_point order points num_points = Inl (TableBounds (- 1) 0 0)"
proof -
  have m1: "fd_coeff_loop_m1 ops eval_point order points num_points 1 0 c3 d
      = Inl (TableBounds (- 1) 0 0)" for c3 d
    using fd_coeff_loop_m1_first [of order 1 num_points 0 points ops eval_point c3 d] assms
    by simp
  have p: "rd points 1 = Inr (points ! 1)" "rd points 0 = Inr (points ! 0)"
    using assms by (simp_all add: rd_def)
  have v: "fd_coeff_loop_v ops eval_point order points num_points 1 s
      = Inl (TableBounds (- 1) 0 0)" for s
    unfolding fd_coeff_loop_v_def
    by (subst for_loop.simps) (simp add: bindE_def p m1 Let_def split: prod.split)
  have w: "d_wr order num_points d 0 0 0 x = Inr (d((0, 0, 0) := x))" for d :: "'a table" and x
    using assms by (simp add: d_wr_def)
  show ?thesis
    unfolding fd_coeff_def Let_def w
    using assms(1) by (subst for_loop.simps) (simp add: bindE_def v)
qed

lemma fd_coeff_one_point:
  assumes "0 \<le> order" and "length coeff = 1"
  shows "fd_coeff ops coeff eval_point order points 1
           = Inr [if order = 0 then f_of_int ops 1 else f_of_int ops 0]"
proof -
  have w: "d_wr order 1 d 0 0 0 x = Inr (d((0, 0, 0) := x))" for d :: "'a table" and x
    using assms by (simp add: d_wr_def)
  obtain c where c: "coeff = [c]" using assms(2) by (cases coeff) auto
  show ?thesis
    unfolding fd_coeff_def Let_def w
    using assms(1) c
    by (simp add: for_loop.simps [of 1 1] for_loop.simps [of 0 1] for_loop.simps [of 1 1 _ "[_]"]
          bindE_def d_rd_def wr_def)
qed

text \<open>
  Claim C9 fails on the code.  In every call with two or more points the first iteration
  of the recurrence (\<open>n = 1\<close>, \<open>v = 0\<close>, \<open>m = 0\<close>) evaluates \<open>m*d[m-1][n-1][v]\<close>, that is
  \<open>d[-1][0][0]\<close>: the first index is negative, and the element lies before the table.  With
  one point no loop runs and every access is inside its array.
\<close>

theorem fd_coeff_negative_index:
  "(2 \<le> num_points \<and> 0 \<le> order \<and> length points = nat num_points \<longrightarrow>
      fd_coeff ops coeff eval_point order points num_points = Inl (TableBounds (- 1) 0 0)) \<and>
   (0 \<le> order \<and> length coeff = 1 \<longrightarrow>
      fd_coeff ops coeff eval_point order points 1
        = Inr [if order = 0 then f_of_int ops 1 else f_of_int ops 0])"
  using fd_coeff_negative_index_general [of num_points order points ops coeff eval_point]
    fd_coeff_one_point [of order coeff ops eval_point points]
  by blast

theorem fd_coeff_negative_index_witness:
  "fd_coeff \<lparr>f_sub = (-), f_mul = (*), f_div = (div), f_of_int = (\<lambda>i. i)\<rparr>
     [0, 0, 0] 0 2 [- 1, 0, 1] 3 = Inl (TableBounds (- 1) 0 0) \<and>
   fd_coeff \<lparr>f_sub = (-), f_mul = (*), f_div = (div), f_of_int = (\<lambda>i. i)\<rparr>
     [0] 0 0 [0] 1 = Inr [1]"
proof -
  let ?ops = "\<lparr>f_sub = (-), f_mul = (*), f_div = (div), f_of_int = (\<lambda>i. i)\<rparr> :: int FloatOps"
  have h1: "(2::int) \<le> 3 \<and> (0::int) \<le> 2 \<and> length [- 1, 0, 1 :: int] = nat 3" by simp
  have h2: "(0::int) \<le> 0 \<and> length [0::int] = 1" by simp
  note a = fd_coeff_negative_index [of 3 2 "[- 1, 0, 1]" ?ops "[0, 0, 0]" 0, THEN conjunct1, THEN mp, OF h1]
  note b = fd_coeff_negative_index [of 3 0 "[0]" ?ops "[0]" 0, THEN conjunct2, THEN mp, OF h2]
  from a b show ?thesis by simp
qed

section \<open>Base points\<close>

lemma args_makeBasePoint:
  "args (makeBasePoint dims gp) =
     map (\<lambda>(d, ie). if d = innerDim dims then (d, Const 0) else (d, ie)) (args gp)"
  by (simp add: makeBasePoint_def cloneGridPoint_def setArgConst_def Let_def split_def)

text \<open>
  Claim C7, as amended.  \<open>makeBasePoint(gp)\<close> is a point of the same grid with the same
  dimensions, whose index in the inner dimension is the constant 0 and whose index in every
  other dimension is the one of \<open>gp\<close>; applying it twice is applying it once.
\<close>

theorem makeBasePoint_inner_zero:
  "gridName (makeBasePoint dims gp) = gridName gp \<and>
   map fst (args (makeBasePoint dims gp)) = map fst (args gp) \<and>
   (\<forall>i<length (args gp).
      args (makeBasePoint dims gp) ! i =
        (if fst (args gp ! i) = innerDim dims then (innerDim dims, Const 0) else args gp ! i)) \<and>
   makeBasePoint dims (makeBasePoint dims gp) = makeBasePoint dims gp"
proof -
  have 1: "gridName (makeBasePoint dims gp) = gridName gp"
    by (simp add: makeBasePoint_def cloneGridPoint_def setArgConst_def Let_def)
  have 2: "map fst (args (makeBasePoint dims gp)) = map fst (args gp)"
    by (simp add: args_makeBasePoint split_def comp_def)
  have 3: "args (makeBasePoint dims gp) ! i =
        (if fst (args gp ! i) = innerDim dims then (innerDim dims, Const 0) else args gp ! i)"
    if "i < length (args gp)" for i
    using that by (simp add: args_makeBasePoint split_def)
  have "args (makeBasePoint dims (makeBasePoint dims gp)) = args (makeBasePoint dims gp)"
    by (simp add: args_makeBasePoint split_def comp_def)
  then have 4: "makeBasePoint dims (makeBasePoint dims gp) = makeBasePoint dims gp"
    by (simp add: makeBasePoint_def cloneGridPoint_def setArgConst_def Let_def)
  from 1 2 3 4 show ?thesis by blast
qed

theorem makeBasePoint_inner_zero_witness:
  "args (makeBasePoint \<lparr>innerDim = ''x'', fold_shape = [(''x'', 4), (''y'', 2)]\<rparr>
     \<lparr>gridName = ''u'', args = [(''t'', Offset 0), (''x'', Offset 5), (''y'', Offset 3)]\<rparr>) ! 1
   = (''x'', Const 0) \<and>
   args (makeBasePoint \<lparr>innerDim = ''x'', fold_shape = [(''x'', 4), (''y'', 2)]\<rparr>
     \<lparr>gridName = ''u'', args = [(''t'', Offset 0), (''x'', Offset 5), (''y'', Offset 3)]\<rparr>) ! 2
   = (''y'', Offset 3)"
proof -
  let ?d = "\<lparr>innerDim = ''x'', fold_shape = [(''x'', 4), (''y'', 2)]\<rparr>"
  let ?g = "\<lparr>gridName = ''u'', args = [(''t'', Offset 0), (''x'', Offset 5), (''y'', Offset 3)]\<rparr>"
  note t = makeBasePoint_inner_zero [of ?d ?g, THEN conjunct2, THEN conjunct2, THEN conjunct1]
  have "(1::nat) < length (args ?g)" "(2::nat) < length (args ?g)" by simp_all
  from t [rule_format, OF this(1)] t [rule_format, OF this(2)] show ?thesis by simp
qed

text \<open>
  The fold \<open>x:4, y:2\<close> with inner dimension \<open>x\<close>, and the point \<open>u(t, x+5, y+3)\<close>: the planner
  aligns both offsets, to \<open>x+4\<close> and \<open>y+2\<close>, and \<open>makeBasePoint\<close> keeps \<open>y+3\<close>.
\<close>

theorem makeBasePoint_planner_counterexample:
  "makeBasePoint \<lparr>innerDim = ''x'', fold_shape = [(''x'', 4), (''y'', 2)]\<rparr>
     \<lparr>gridName = ''u'', args = [(''t'', Offset 0), (''x'', Offset 5), (''y'', Offset 3)]\<rparr>
   = \<lparr>gridName = ''u'', args = [(''t'', Offset 0), (''x'', Const 0), (''y'', Offset 3)]\<rparr> \<and>
   planner_base_point \<lparr>innerDim = ''x'', fold_shape = [(''x'', 4), (''y'', 2)]\<rparr>
     \<lparr>gridName = ''u'', args = [(''t'', Offset 0), (''x'', Offset 5), (''y'', Offset 3)]\<rparr>
   = \<lparr>gridName = ''u'', args = [(''t'', Offset 0), (''x'', Offset 4), (''y'', Offset 2)]\<rparr>"
  by (simp add: makeBasePoint_def cloneGridPoint_def setArgConst_def planner_base_point_def Let_def)

section \<open>The pointer cache\<close>

lemma lookupPointPtr_eq: "lookupPointPtr h gp = vecPtrs h gp"
  by (auto simp: lookupPointPtr_def dom_def)

lemma lookup_save: "lookupPointPtr (savePointPtr h gp var) gp' = (if gp' = gp then Some var else lookupPointPtr h gp')"
  by (simp add: lookupPointPtr_eq savePointPtr_def)

lemma request_effect:
  assumes "requestPointPtr mk dims h gp = (h', p)"
  shows "(case vecPtrs h (makeBasePoint dims gp) of
            Some q \<Rightarrow> p = q \<and> vecPtrs h' = vecPtrs h \<and> varNum h' = varNum h
          | None \<Rightarrow> p = mk (varNum h) \<and> vecPtrs h' = (vecPtrs h)(makeBasePoint dims gp \<mapsto> p) \<and>
                    varNum h' = Suc (varNum h)) \<and>
         ptrOfsLo h' = (case innerOffset dims gp of None \<Rightarrow> ptrOfsLo h
            | Some ofs \<Rightarrow> (ptrOfsLo h)(p \<mapsto> (case ptrOfsLo h p of None \<Rightarrow> ofs | Some lo \<Rightarrow> min lo ofs))) \<and>
         ptrOfsHi h' = (case innerOffset dims gp of None \<Rightarrow> ptrOfsHi h
            | Some ofs \<Rightarrow> (ptrOfsHi h)(p \<mapsto> (case ptrOfsHi h p of None \<Rightarrow> ofs | Some hi \<Rightarrow> max hi ofs)))"
  using assms
  by (auto simp: requestPointPtr_def Let_def lookupPointPtr_eq savePointPtr_def extendOfs_def
      split: option.splits)

lemma request_lookup:
  assumes "requestPointPtr mk dims h gp = (h', p)"
  shows "lookupPointPtr h' (makeBasePoint dims gp) = Some p"
  using request_effect [OF assms]
  by (auto simp: lookupPointPtr_eq split: option.splits)

lemma request_again:
  assumes 1: "requestPointPtr mk dims h gp1 = (h1, p1)"
    and b: "makeBasePoint dims gp2 = makeBasePoint dims gp1"
    and 2: "requestPointPtr mk dims h1 gp2 = (h2, p2)"
  shows "p2 = p1 \<and> vecPtrs h2 = vecPtrs h1 \<and> varNum h2 = varNum h1"
proof -
  have "vecPtrs h1 (makeBasePoint dims gp2) = Some p1"
    using request_lookup [OF 1] b by (simp add: lookupPointPtr_eq)
  with request_effect [OF 2] show ?thesis by simp
qed

lemma offsetsOf_snoc:
  "offsetsOf dims b (gps @ [gp]) =
     offsetsOf dims b gps @
       (if makeBasePoint dims gp = b
        then (case innerOffset dims gp of None \<Rightarrow> [] | Some ofs \<Rightarrow> [ofs]) else [])"
  by (simp add: offsetsOf_def List.map_filter_def split: option.split)

lemma rangeOf_snoc_Min:
  "rangeOf (ofs @ [x]) (\<lambda>ofs. Min (set ofs)) =
     Some (case rangeOf ofs (\<lambda>ofs. Min (set ofs)) of None \<Rightarrow> x | Some lo \<Rightarrow> min lo x)"
  by (cases "ofs = []") (simp_all add: rangeOf_def min.commute)

lemma rangeOf_snoc_Max:
  "rangeOf (ofs @ [x]) (\<lambda>ofs. Max (set ofs)) =
     Some (case rangeOf ofs (\<lambda>ofs. Max (set ofs)) of None \<Rightarrow> x | Some hi \<Rightarrow> max hi x)"
  by (cases "ofs = []") (simp_all add: rangeOf_def max.commute)

lemma offsetsOf_unseen:
  assumes "\<not> (\<exists>gp\<in>set gps. makeBasePoint dims gp = b)"
  shows "offsetsOf dims b gps = []"
proof -
  have "filter (\<lambda>gp. makeBasePoint dims gp = b) gps = []"
    using assms by (simp add: filter_empty_conv)
  then show ?thesis by (simp add: offsetsOf_def List.map_filter_def)
qed

lemma cacheInv_step:
  assumes inj: "inj mk" and inv: "cacheInv mk dims h gps"
  shows "cacheInv mk dims (fst (requestPointPtr mk dims h gp)) (gps @ [gp])"
proof -
  obtain h' p where req: "requestPointPtr mk dims h gp = (h', p)" by (cases "requestPointPtr mk dims h gp")
  let ?b0 = "makeBasePoint dims gp"
  let ?new = "case innerOffset dims gp of None \<Rightarrow> [] | Some ofs \<Rightarrow> [ofs]"
  note eff = request_effect [OF req]
  from inv have
    I1: "\<And>b q. vecPtrs h b = Some q \<Longrightarrow> \<exists>k<varNum h. q = mk k" and
    I2: "\<And>b b' q. vecPtrs h b = Some q \<Longrightarrow> vecPtrs h b' = Some q \<Longrightarrow> b = b'" and
    I3: "\<And>b. vecPtrs h b \<noteq> None \<longleftrightarrow> (\<exists>gp\<in>set gps. makeBasePoint dims gp = b)" and
    I4: "\<And>b q. vecPtrs h b = Some q \<Longrightarrow>
        ptrOfsLo h q = rangeOf (offsetsOf dims b gps) (\<lambda>ofs. Min (set ofs)) \<and>
        ptrOfsHi h q = rangeOf (offsetsOf dims b gps) (\<lambda>ofs. Max (set ofs))" and
    I5: "\<And>k. varNum h \<le> k \<Longrightarrow> ptrOfsLo h (mk k) = None \<and> ptrOfsHi h (mk k) = None"
    unfolding cacheInv_def by blast+
  \<comment> \<open>the variable of the access, before and after\<close>
  have vp: "vecPtrs h' = (vecPtrs h)(?b0 \<mapsto> p)"
    using eff by (auto split: option.splits)
  have vn: "varNum h \<le> varNum h'"
    using eff by (auto split: option.splits)
  have pk: "\<exists>k<varNum h'. p = mk k"
  proof (cases "vecPtrs h ?b0")
    case None
    then show ?thesis using eff by auto
  next
    case (Some q)
    then show ?thesis using eff I1 [OF Some] by auto
  qed
  have other: "q \<noteq> p" if vq: "vecPtrs h b = Some q" and nb: "b \<noteq> ?b0" for b q
  proof (cases "vecPtrs h ?b0")
    case None
    then have "p = mk (varNum h)" using eff by simp
    moreover obtain k where "k < varNum h" "q = mk k" using I1 [OF vq] by blast
    ultimately show ?thesis using inj by (auto dest: injD)
  next
    case (Some q0)
    then have "p = q0" using eff by simp
    then show ?thesis using I2 [OF vq, of ?b0] Some nb by auto
  qed
  have before: "ptrOfsLo h p = rangeOf (offsetsOf dims ?b0 gps) (\<lambda>ofs. Min (set ofs)) \<and>
                ptrOfsHi h p = rangeOf (offsetsOf dims ?b0 gps) (\<lambda>ofs. Max (set ofs))"
  proof (cases "vecPtrs h ?b0")
    case None
    then have "p = mk (varNum h)" using eff by simp
    moreover have "offsetsOf dims ?b0 gps = []"
      using None I3 [of ?b0] by (intro offsetsOf_unseen) simp
    ultimately show ?thesis using I5 [of "varNum h"] by (simp add: rangeOf_def)
  next
    case (Some q0)
    then have "p = q0" using eff by simp
    then show ?thesis using I4 [OF Some] by simp
  qed
  have lo: "ptrOfsLo h' q = (if q = p then rangeOf (offsetsOf dims ?b0 gps @ ?new) (\<lambda>ofs. Min (set ofs))
                              else ptrOfsLo h q)" for q
    using eff before by (cases "innerOffset dims gp") (simp_all add: rangeOf_snoc_Min)
  have hi: "ptrOfsHi h' q = (if q = p then rangeOf (offsetsOf dims ?b0 gps @ ?new) (\<lambda>ofs. Max (set ofs))
                              else ptrOfsHi h q)" for q
    using eff before by (cases "innerOffset dims gp") (simp_all add: rangeOf_snoc_Max)
  \<comment> \<open>the five parts of the invariant\<close>
  have J1: "\<exists>k<varNum h'. q = mk k" if "vecPtrs h' b = Some q" for b q
  proof (cases "b = ?b0")
    case True
    then show ?thesis using that vp pk by simp
  next
    case False
    then have "vecPtrs h b = Some q" using that vp by simp
    then show ?thesis using I1 vn by (meson less_le_trans)
  qed
  have J2: "b = b'" if "vecPtrs h' b = Some q" "vecPtrs h' b' = Some q" for b b' q
  proof (cases "b = ?b0"; cases "b' = ?b0")
    assume "b = ?b0" "b' = ?b0"
    then show ?thesis by simp
  next
    assume a: "b = ?b0" "b' \<noteq> ?b0"
    then have "q = p" "vecPtrs h b' = Some q" using that vp by simp_all
    then show ?thesis using other [of b' q] a by simp
  next
    assume a: "b \<noteq> ?b0" "b' = ?b0"
    then have "q = p" "vecPtrs h b = Some q" using that vp by simp_all
    then show ?thesis using other [of b q] a by simp
  next
    assume "b \<noteq> ?b0" "b' \<noteq> ?b0"
    then show ?thesis using that vp I2 by simp
  qed
  have J3: "vecPtrs h' b \<noteq> None \<longleftrightarrow> (\<exists>g\<in>set (gps @ [gp]). makeBasePoint dims g = b)" for b
    using I3 [of b] vp by auto
  have J4: "ptrOfsLo h' q = rangeOf (offsetsOf dims b (gps @ [gp])) (\<lambda>ofs. Min (set ofs)) \<and>
            ptrOfsHi h' q = rangeOf (offsetsOf dims b (gps @ [gp])) (\<lambda>ofs. Max (set ofs))"
    if "vecPtrs h' b = Some q" for b q
  proof (cases "b = ?b0")
    case True
    then have "q = p" using that vp by simp
    then show ?thesis using True lo [of q] hi [of q] by (simp add: offsetsOf_snoc)
  next
    case False
    then have q: "vecPtrs h b = Some q" using that vp by simp
    then have "q \<noteq> p" using other False by simp
    then show ?thesis using False lo [of q] hi [of q] I4 [OF q] by (simp add: offsetsOf_snoc)
  qed
  have J5: "ptrOfsLo h' (mk k) = None \<and> ptrOfsHi h' (mk k) = None" if "varNum h' \<le> k" for k
  proof -
    have "mk k \<noteq> p" using pk that inj by (auto dest: injD)
    then show ?thesis using lo [of "mk k"] hi [of "mk k"] I5 [of k] vn that by simp
  qed
  have "cacheInv mk dims h' (gps @ [gp])"
    unfolding cacheInv_def using J1 J2 J3 J4 J5 by blast
  then show ?thesis using req by simp
qed

lemma cacheInv_empty: "cacheInv mk dims emptyCache []"
  by (simp add: cacheInv_def emptyCache_def)

lemma cacheInv_requestAll:
  assumes "inj mk"
  shows "cacheInv mk dims (requestAll mk dims emptyCache gps) gps"
proof (induction gps rule: rev_induct)
  case Nil
  show ?case by (simp add: requestAll_def cacheInv_empty)
next
  case (snoc gp gps)
  have "requestAll mk dims emptyCache (gps @ [gp]) =
        fst (requestPointPtr mk dims (requestAll mk dims emptyCache gps) gp)"
    by (simp add: requestAll_def)
  then show ?case using cacheInv_step [OF assms snoc] by simp
qed

text \<open>
  Claim C6.  After \<open>savePointPtr(gp, var)\<close>, \<open>lookupPointPtr(gp)\<close> returns \<open>var\<close>.  A second
  request for the aligned pointer of a point with the same base point returns the variable
  of the first and makes no new one.  After the accesses \<open>gps\<close> of a generation pass, the
  low and the high offset recorded for the pointer of each base point are the minimum and
  the maximum of the inner-dimension offsets requested with that base point.
\<close>

theorem pointer_cache_idempotent:
  "lookupPointPtr (savePointPtr h gp var) gp = Some var \<and>
   (requestPointPtr makeVarName dims h gp1 = (h1, p1) \<and>
    makeBasePoint dims gp2 = makeBasePoint dims gp1 \<and>
    requestPointPtr makeVarName dims h1 gp2 = (h2, p2) \<longrightarrow>
      p2 = p1 \<and> vecPtrs h2 = vecPtrs h1 \<and> varNum h2 = varNum h1) \<and>
   (inj makeVarName \<longrightarrow>
      (\<forall>g\<in>set gps. \<exists>p.
         lookupPointPtr (requestAll makeVarName dims emptyCache gps) (makeBasePoint dims g) = Some p \<and>
         (offsetsOf dims (makeBasePoint dims g) gps \<noteq> [] \<longrightarrow>
            ptrOfsLo (requestAll makeVarName dims emptyCache gps) p
              = Some (Min (set (offsetsOf dims (makeBasePoint dims g) gps))) \<and>
            ptrOfsHi (requestAll makeVarName dims emptyCache gps) p
              = Some (Max (set (offsetsOf dims (makeBasePoint dims g) gps))))))"
proof (intro conjI impI ballI)
  show "lookupPointPtr (savePointPtr h gp var) gp = Some var"
    by (simp add: lookup_save)
next
  assume a: "requestPointPtr makeVarName dims h gp1 = (h1, p1) \<and>
    makeBasePoint dims gp2 = makeBasePoint dims gp1 \<and>
    requestPointPtr makeVarName dims h1 gp2 = (h2, p2)"
  then have r: "p2 = p1 \<and> vecPtrs h2 = vecPtrs h1 \<and> varNum h2 = varNum h1"
    using request_again [of makeVarName dims h gp1 h1 p1 gp2 h2 p2] by blast
  from r show "p2 = p1" by simp
  from r show "vecPtrs h2 = vecPtrs h1" by simp
  from r show "varNum h2 = varNum h1" by simp
next
  fix g assume inj: "inj makeVarName" and g: "g \<in> set gps"
  let ?H = "requestAll makeVarName dims emptyCache gps"
  let ?b = "makeBasePoint dims g"
  have inv: "cacheInv makeVarName dims ?H gps" by (rule cacheInv_requestAll [OF inj])
  then have "vecPtrs ?H ?b \<noteq> None" using g unfolding cacheInv_def by blast
  then obtain p where p: "vecPtrs ?H ?b = Some p" by blast
  from inv p have "ptrOfsLo ?H p = rangeOf (offsetsOf dims ?b gps) (\<lambda>ofs. Min (set ofs)) \<and>
        ptrOfsHi ?H p = rangeOf (offsetsOf dims ?b gps) (\<lambda>ofs. Max (set ofs))"
    unfolding cacheInv_def by blast
  then have "offsetsOf dims ?b gps \<noteq> [] \<longrightarrow>
            ptrOfsLo ?H p = Some (Min (set (offsetsOf dims ?b gps))) \<and>
            ptrOfsHi ?H p = Some (Max (set (offsetsOf dims ?b gps)))"
    by (simp add: rangeOf_def)
  with p show "\<exists>p. lookupPointPtr ?H ?b = Some p \<and>
         (offsetsOf dims ?b gps \<noteq> [] \<longrightarrow>
            ptrOfsLo ?H p = Some (Min (set (offsetsOf dims ?b gps))) \<and>
            ptrOfsHi ?H p = Some (Max (set (offsetsOf dims ?b gps))))"
    by (auto simp: lookupPointPtr_eq)
qed

theorem pointer_cache_idempotent_witness:
  "\<exists>p. lookupPointPtr
          (requestAll (\<lambda>n. replicate (Suc n) CHR ''p'') \<lparr>innerDim = ''x'', fold_shape = [(''x'', 4)]\<rparr>
             emptyCache
             [\<lparr>gridName = ''u'', args = [(''t'', Offset 0), (''x'', Offset 1)]\<rparr>,
              \<lparr>gridName = ''u'', args = [(''t'', Offset 0), (''x'', Offset (- 2))]\<rparr>,
              \<lparr>gridName = ''v'', args = [(''t'', Offset 0), (''x'', Offset 7)]\<rparr>,
              \<lparr>gridName = ''u'', args = [(''t'', Offset 0), (''x'', Offset 3)]\<rparr>])
          \<lparr>gridName = ''u'', args = [(''t'', Offset 0), (''x'', Const 0)]\<rparr> = Some p \<and>
        ptrOfsLo
          (requestAll (\<lambda>n. replicate (Suc n) CHR ''p'') \<lparr>innerDim = ''x'', fold_shape = [(''x'', 4)]\<rparr>
             emptyCache
             [\<lparr>gridName = ''u'', args = [(''t'', Offset 0), (''x'', Offset 1)]\<rparr>,
              \<lparr>gridName = ''u'', args = [(''t'', Offset 0), (''x'', Offset (- 2))]\<rparr>,
              \<lparr>gridName = ''v'', args = [(''t'', Offset 0), (''x'', Offset 7)]\<rparr>,
              \<lparr>gridName = ''u'', args = [(''t'', Offset 0), (''x'', Offset 3)]\<rparr>]) p = Some (- 2) \<and>
        ptrOfsHi
          (requestAll (\<lambda>n. replicate (Suc n) CHR ''p'') \<lparr>innerDim = ''x'', fold_shape = [(''x'', 4)]\<rparr>
             emptyCache
             [\<lparr>gridName = ''u'', args = [(''t'', Offset 0), (''x'', Offset 1)]\<rparr>,
              \<lparr>gridName = ''u'', args = [(''t'', Offset 0), (''x'', Offset (- 2))]\<rparr>,
              \<lparr>gridName = ''v'', args = [(''t'', Offset 0), (''x'', Offset 7)]\<rparr>,
              \<lparr>gridName = ''u'', args = [(''t'', Offset 0), (''x'', Offset 3)]\<rparr>]) p = Some 3"
proof -
  let ?mk = "\<lambda>n. replicate (Suc n) CHR ''p''"
  let ?dims = "\<lparr>innerDim = ''x'', fold_shape = [(''x'', 4)]\<rparr>"
  let ?g = "\<lparr>gridName = ''u'', args = [(''t'', Offset 0), (''x'', Offset 1)]\<rparr>"
  let ?gps = "[?g,
              \<lparr>gridName = ''u'', args = [(''t'', Offset 0), (''x'', Offset (- 2))]\<rparr>,
              \<lparr>gridName = ''v'', args = [(''t'', Offset 0), (''x'', Offset 7)]\<rparr>,
              \<lparr>gridName = ''u'', args = [(''t'', Offset 0), (''x'', Offset 3)]\<rparr>]"
  have inj: "inj ?mk"
  proof (rule injI)
    fix m n :: nat assume "replicate (Suc m) CHR ''p'' = replicate (Suc n) CHR ''p''"
    then have "length (replicate (Suc m) CHR ''p'') = length (replicate (Suc n) CHR ''p'')" by simp
    then show "m = n" by simp
  qed
  have g: "?g \<in> set ?gps" by simp
  have b: "makeBasePoint ?dims ?g = \<lparr>gridName = ''u'', args = [(''t'', Offset 0), (''x'', Const 0)]\<rparr>"
    by (simp add: makeBasePoint_def cloneGridPoint_def setArgConst_def Let_def)
  have o: "offsetsOf ?dims \<lparr>gridName = ''u'', args = [(''t'', Offset 0), (''x'', Const 0)]\<rparr> ?gps
      = [1, - 2, 3]"
    by (simp add: offsetsOf_def List.map_filter_def innerOffset_def makeBasePoint_def
        cloneGridPoint_def setArgConst_def Let_def)
  note t = pointer_cache_idempotent [where makeVarName = ?mk and dims = ?dims and gps = ?gps,
      THEN conjunct2, THEN conjunct2, THEN mp, OF inj, THEN bspec, OF g]
  from t show ?thesis unfolding b o by simp
qed

end
